theory Spec2Isabelle
  imports Complex_Main
begin

section \<open>Errors and the Retry Wrapper\<close>

text \<open>
  A rejected promise carries an error value. The retry policy only inspects whether the
  error is an axios error and, if so, the status of its response
  (\<^verbatim>\<open>error.response?.status\<close>, absent when no response arrived).
\<close>

datatype js_error =
    AxiosError "nat option"
  | OtherError string

text \<open>\<^verbatim>\<open>axios.isAxiosError(error) && error.response?.status === 429\<close>\<close>

fun is_rate_limited :: "js_error \<Rightarrow> bool" where
  "is_rate_limited (AxiosError (Some st)) = (st = 429)"
| "is_rate_limited (AxiosError None) = False"
| "is_rate_limited (OtherError _) = False"

definition MAX_RETRIES :: nat where
  "MAX_RETRIES = 3"

text \<open>
  What one run of \<^verbatim>\<open>fetchWithRetry\<close> does, in order: \<open>Call k\<close> is the \<open>k\<close>-th
  request handed to the rate limiter, \<open>Backoff ms\<close> is \<^verbatim>\<open>await delay(ms)\<close>.
\<close>

datatype retry_event = Call nat | Backoff nat

text \<open>
  \<^verbatim>\<open>fetchWithRetry(url, options, retries = MAX_RETRIES)\<close>. The network is the
  function \<open>net\<close>: \<open>net k\<close> is the outcome of the \<open>k\<close>-th
  \<^verbatim>\<open>rateLimiter.add(() => axios.get(url, options))\<close>, \<open>Inl\<close> a rejection and
  \<open>Inr\<close> the response. The result is the outcome of the returned promise together
  with the events of the run. The budget \<open>retries\<close> is a natural number: the callers
  pass none (so it is \<open>MAX_RETRIES\<close>) and the recursion only passes
  \<^verbatim>\<open>retries - 1\<close> under \<^verbatim>\<open>retries > 0\<close>.
\<close>

fun fetchWithRetry ::
  "(nat \<Rightarrow> js_error + 'r) \<Rightarrow> nat \<Rightarrow> nat \<Rightarrow> (js_error + 'r) \<times> retry_event list" where
  "fetchWithRetry net k retries =
     (case net k of
        Inr resp \<Rightarrow> (Inr resp, [Call k])
      | Inl e \<Rightarrow>
          if retries > 0 \<and> is_rate_limited e then
            (case fetchWithRetry net (Suc k) (retries - 1) of
               (res, evs) \<Rightarrow> (res, Call k # Backoff 2000 # evs))
          else (Inl e, [Call k]))"

declare fetchWithRetry.simps [simp del]

text \<open>
  The events of a run in which every attempt is throttled: \<open>n\<close> retries, each after a
  2000 ms backoff, then the last call.
\<close>

fun throttled_run :: "nat \<Rightarrow> nat \<Rightarrow> retry_event list" where
  "throttled_run k 0 = [Call k]"
| "throttled_run k (Suc n) = Call k # Backoff 2000 # throttled_run (Suc k) n"

subsection \<open>Properties of the Retry Wrapper\<close>

lemma fetchWithRetry_success:
  "net k = Inr resp \<Longrightarrow> fetchWithRetry net k retries = (Inr resp, [Call k])"
  by (simp add: fetchWithRetry.simps)

lemma fetchWithRetry_retry:
  assumes "net k = Inl e" and "is_rate_limited e" and "0 < retries"
  shows "fetchWithRetry net k retries =
     (fst (fetchWithRetry net (Suc k) (retries - 1)),
      Call k # Backoff 2000 # snd (fetchWithRetry net (Suc k) (retries - 1)))"
  using assms by (subst fetchWithRetry.simps) (simp add: case_prod_beta)

lemma fetchWithRetry_other:
  assumes "net k = Inl e" and "\<not> is_rate_limited e"
  shows "fetchWithRetry net k retries = (Inl e, [Call k])"
  using assms by (simp add: fetchWithRetry.simps)

lemma fetchWithRetry_exhausted:
  assumes "net k = Inl e" and "retries = 0"
  shows "fetchWithRetry net k retries = (Inl e, [Call k])"
  using assms by (simp add: fetchWithRetry.simps)

lemma fetchWithRetry_all_throttled:
  "(\<And>j. j \<le> retries \<Longrightarrow> \<exists>e. net (k + j) = Inl e \<and> is_rate_limited e) \<Longrightarrow>
   fetchWithRetry net k retries = (net (k + retries), throttled_run k retries)"
proof (induction retries arbitrary: k)
  case 0
  from "0"[of 0] obtain e where "net k = Inl e" by auto
  then show ?case by (simp add: fetchWithRetry.simps)
next
  case (Suc n)
  from Suc.prems[of 0] obtain e where e: "net k = Inl e" "is_rate_limited e" by auto
  have "\<And>j. j \<le> n \<Longrightarrow> \<exists>e. net (Suc k + j) = Inl e \<and> is_rate_limited e"
    using Suc.prems[of "Suc _"] by simp
  then have "fetchWithRetry net (Suc k) n = (net (Suc k + n), throttled_run (Suc k) n)"
    by (rule Suc.IH)
  with e show ?case
    by (simp add: fetchWithRetry_retry)
qed

lemma fetchWithRetry_length:
  "length (snd (fetchWithRetry net k retries)) \<le> 2 * retries + 1"
proof (induction retries arbitrary: k)
  case 0
  then show ?case
    by (simp add: fetchWithRetry.simps split: sum.splits)
next
  case (Suc n)
  have "length (snd (fetchWithRetry net (Suc k) n)) \<le> 2 * n + 1"
    by (rule Suc.IH)
  then show ?case
    by (subst fetchWithRetry.simps) (simp add: case_prod_beta split: sum.splits)
qed

text \<open>
  C3. A call that fails with HTTP 429 while attempts remain is issued again after a
  2000 ms backoff with the budget decremented by one; a failure that is not an HTTP 429
  propagates at once, with no further call; with the budget at zero the error of the
  failing call propagates unchanged. Over a whole run: when every attempt is throttled,
  exactly \<open>retries + 1\<close> calls are made, separated by 2000 ms backoffs, and the
  caller receives the error of the last one; no run makes more than \<open>retries + 1\<close>
  calls.
\<close>

theorem fetchWithRetry_policy:
  "(net k = Inl e \<and> is_rate_limited e \<and> 0 < retries \<longrightarrow>
      fetchWithRetry net k retries =
        (fst (fetchWithRetry net (Suc k) (retries - 1)),
         Call k # Backoff 2000 # snd (fetchWithRetry net (Suc k) (retries - 1))))
   \<and> (net k = Inl e \<and> \<not> is_rate_limited e \<longrightarrow>
      fetchWithRetry net k retries = (Inl e, [Call k]))
   \<and> (net k = Inl e \<and> retries = 0 \<longrightarrow>
      fetchWithRetry net k retries = (Inl e, [Call k]))
   \<and> ((\<forall>j\<le>retries. \<exists>e'. net (k + j) = Inl e' \<and> is_rate_limited e') \<longrightarrow>
      fetchWithRetry net k retries = (net (k + retries), throttled_run k retries))
   \<and> length (snd (fetchWithRetry net k retries)) \<le> 2 * retries + 1"
  using fetchWithRetry_retry [of net k e retries] fetchWithRetry_other [of net k e retries]
    fetchWithRetry_exhausted [of net k e retries]
    fetchWithRetry_all_throttled [of retries net k] fetchWithRetry_length [of net k retries]
  by blast

text \<open>
  The theorem at concrete networks, with the default budget: two throttled attempts and
  then a response; a network failure on the first attempt; a budget of zero; and a
  network that throttles every attempt.
\<close>

theorem fetchWithRetry_policy_witness:
  "fetchWithRetry (\<lambda>j. if j < 1 then Inl (AxiosError (Some 429)) else Inr ''page'') 0 MAX_RETRIES =
     (Inr ''page'', [Call 0, Backoff 2000, Call 1])
   \<and> fetchWithRetry (\<lambda>j. (Inl (AxiosError (Some 503)) :: js_error + string)) 0 MAX_RETRIES =
     (Inl (AxiosError (Some 503)), [Call 0])
   \<and> fetchWithRetry (\<lambda>j. (Inl (AxiosError (Some 429)) :: js_error + string)) 7 0 =
     (Inl (AxiosError (Some 429)), [Call 7])
   \<and> fetchWithRetry (\<lambda>j. (Inl (AxiosError (Some 429)) :: js_error + string)) 0 MAX_RETRIES =
     (Inl (AxiosError (Some 429)),
      [Call 0, Backoff 2000, Call 1, Backoff 2000, Call 2, Backoff 2000, Call 3])"
proof -
  let ?n1 = "\<lambda>j::nat. if j < 1 then Inl (AxiosError (Some 429)) else (Inr ''page'' :: js_error + string)"
  let ?n2 = "\<lambda>j::nat. (Inl (AxiosError (Some 503)) :: js_error + string)"
  let ?n3 = "\<lambda>j::nat. (Inl (AxiosError (Some 429)) :: js_error + string)"
  have a: "fetchWithRetry ?n1 0 3 = (Inr ''page'', [Call 0, Backoff 2000, Call 1])"
    using fetchWithRetry_policy [of ?n1 0 "AxiosError (Some 429)" 3]
    by (simp add: fetchWithRetry_success)
  have d: "fetchWithRetry ?n2 0 3 = (Inl (AxiosError (Some 503)), [Call 0])"
    using fetchWithRetry_policy [of ?n2 0 "AxiosError (Some 503)" 3] by simp
  have e: "fetchWithRetry ?n3 7 0 = (Inl (AxiosError (Some 429)), [Call 7])"
    using fetchWithRetry_policy [of ?n3 7 "AxiosError (Some 429)" 0] by simp
  have f: "fetchWithRetry ?n3 0 3 = (?n3 (0 + 3), throttled_run 0 3)"
    using fetchWithRetry_policy [of ?n3 0 "AxiosError (Some 429)" 3,
        THEN conjunct2, THEN conjunct2, THEN conjunct2, THEN conjunct1]
    by simp
  have g: "throttled_run 0 3 =
      [Call 0, Backoff 2000, Call 1, Backoff 2000, Call 2, Backoff 2000, Call 3]"
    by (simp add: numeral_3_eq_3)
  show ?thesis
    unfolding MAX_RETRIES_def using a d e f g by simp
qed


section \<open>The Rate Limiter\<close>

text \<open>
  \<^verbatim>\<open>class RateLimiter\<close> runs on JavaScript's single-threaded event loop: code
  between two \<^verbatim>\<open>await\<close>s runs to completion, and the drain \<^verbatim>\<open>process()\<close> is
  suspended at one of two awaits, the timer or the running task. The model is a state
  machine over the object's fields and the place where the drain is suspended:
  \<open>Idle\<close> (no drain), \<open>Sleeping wake\<close> (inside
  \<^verbatim>\<open>await new Promise(resolve => setTimeout(resolve, timeToWait))\<close>, due at time
  \<open>wake\<close>) and \<open>Executing fn\<close> (inside \<^verbatim>\<open>await fn()\<close>).
  Times are milliseconds, as \<^verbatim>\<open>Date.now()\<close> reads them.
\<close>

datatype 'a drain = Idle | Sleeping rat | Executing 'a

text \<open>
  What an observer sees of a run: \<open>Submitted fn\<close> when \<^verbatim>\<open>add(fn)\<close> is
  called, \<open>Started fn t\<close> when the drain calls the queued wrapper of \<open>fn\<close> at time
  \<open>t\<close> (the value stored in \<^verbatim>\<open>lastRequestTime\<close>), and \<open>Resolved\<close> or
  \<open>Rejected\<close> when the promise that \<^verbatim>\<open>add(fn)\<close> returned is settled.
\<close>

datatype ('a, 'r) obs =
    Submitted 'a
  | Started 'a rat
  | Resolved 'a 'r
  | Rejected 'a js_error

text \<open>
  The fields \<open>queue\<close>, \<open>processing\<close>, \<open>lastRequestTime\<close> and \<open>delayMs\<close> are
  those of the class; \<open>pc\<close> is where the drain is suspended, \<open>clock\<close> is the
  current \<^verbatim>\<open>Date.now()\<close> and \<open>trace\<close> collects the observations. A queue entry
  is the task \<open>fn\<close> itself, standing for the wrapper that \<^verbatim>\<open>add\<close> pushes.
\<close>

record ('a, 'r) limiter =
  queue :: "'a list"
  processing :: bool
  lastRequestTime :: rat
  delayMs :: rat
  pc :: "'a drain"
  clock :: rat
  trace :: "('a, 'r) obs list"

text \<open>
  The constructor, at time \<open>t0\<close>. \<^verbatim>\<open>1000 / requestsPerSecond\<close> is read for a
  non-zero rate (the repository constructs limiters with rates 1 and 0.5); JavaScript gives
  \<^verbatim>\<open>Infinity\<close> for a zero rate, which this model does not represent.
\<close>

definition RateLimiter :: "rat \<Rightarrow> rat \<Rightarrow> ('a, 'r) limiter" where
  "RateLimiter requestsPerSecond t0 =
     \<lparr>queue = [], processing = False, lastRequestTime = 0,
      delayMs = 1000 / requestsPerSecond, pc = Idle, clock = t0, trace = []\<rparr>"

text \<open>
  \<^verbatim>\<open>process()\<close> from its entry to its first \<^verbatim>\<open>await\<close>: with an empty queue it
  clears the flag and returns, otherwise it sets the flag and arms the timer for
  \<^verbatim>\<open>Math.max(0, lastRequestTime + delayMs - now)\<close> milliseconds from now.
\<close>

definition process :: "('a, 'r) limiter \<Rightarrow> ('a, 'r) limiter" where
  "process s =
     (if length (queue s) = 0 then s\<lparr>processing := False, pc := Idle\<rparr>
      else
        let now = clock s;
            timeToWait = max 0 (lastRequestTime s + delayMs s - now)
        in s\<lparr>processing := True, pc := Sleeping (now + timeToWait)\<rparr>)"

text \<open>
  \<^verbatim>\<open>add(fn)\<close>: push the wrapper, and start a drain when none is in progress.
\<close>

definition add :: "'a \<Rightarrow> ('a, 'r) limiter \<Rightarrow> ('a, 'r) limiter" where
  "add fn s =
     (let s1 = s\<lparr>queue := queue s @ [fn], trace := trace s @ [Submitted fn]\<rparr>
      in if \<not> processing s1 then process s1 else s1)"

text \<open>
  The drain after the timer: \<^verbatim>\<open>queue.shift()\<close>; when it yields a wrapper, store the
  start time and call it; when it yields nothing, go on to \<^verbatim>\<open>process()\<close>.
\<close>

definition after_wait :: "('a, 'r) limiter \<Rightarrow> ('a, 'r) limiter" where
  "after_wait s =
     (case queue s of
        [] \<Rightarrow> process s
      | fn # rest \<Rightarrow>
          s\<lparr>queue := rest, lastRequestTime := clock s, pc := Executing fn,
            trace := trace s @ [Started fn (clock s)]\<rparr>)"

text \<open>
  The wrapper \<^verbatim>\<open>try { resolve(await fn()) } catch (error) { reject(error) }\<close>: the
  caller's promise is settled with the outcome of \<open>fn\<close>, and the wrapper itself always
  completes normally, so the drain goes on to \<^verbatim>\<open>process()\<close> after either outcome.
\<close>

fun settle :: "'a \<Rightarrow> js_error + 'r \<Rightarrow> ('a, 'r) obs" where
  "settle fn (Inr result) = Resolved fn result"
| "settle fn (Inl error) = Rejected fn error"

definition after_task :: "'a \<Rightarrow> js_error + 'r \<Rightarrow> ('a, 'r) limiter \<Rightarrow> ('a, 'r) limiter" where
  "after_task fn outcome s = process (s\<lparr>trace := trace s @ [settle fn outcome]\<rparr>)"

text \<open>
  What can happen to the limiter: a caller submits a task, time passes, the timer of the
  sleeping drain fires, or the promise of the executing task settles with an outcome
  (\<open>Inl\<close> a rejection). \<open>Tick d\<close> changes the reading of \<^verbatim>\<open>Date.now()\<close> by
  \<open>d\<close>. The timer fires when the environment lets it: nothing in \<open>step\<close> ties
  the firing to the due time, since the platform's timers are not exact (they may fire a
  millisecond early by \<^verbatim>\<open>Date.now()\<close>, and fractional delays are truncated). An
  event gives \<open>None\<close> only where it cannot happen at all: a timer that was not set, a
  task that is not running.
\<close>

datatype ('a, 'r) event = Add 'a | Tick rat | Timeout | Finish "js_error + 'r"

fun step :: "('a, 'r) event \<Rightarrow> ('a, 'r) limiter \<Rightarrow> ('a, 'r) limiter option" where
  "step (Add fn) s = Some (add fn s)"
| "step (Tick d) s = Some (s\<lparr>clock := clock s + d\<rparr>)"
| "step Timeout s =
     (case pc s of
        Sleeping wake \<Rightarrow> Some (after_wait s)
      | _ \<Rightarrow> None)"
| "step (Finish outcome) s =
     (case pc s of
        Executing fn \<Rightarrow> Some (after_task fn outcome s)
      | _ \<Rightarrow> None)"

fun run :: "('a, 'r) event list \<Rightarrow> ('a, 'r) limiter \<Rightarrow> ('a, 'r) limiter option" where
  "run [] s = Some s"
| "run (e # es) s = (case step e s of None \<Rightarrow> None | Some s' \<Rightarrow> run es s')"

text \<open>
  A timer is on time when it fires no earlier than its due time by \<^verbatim>\<open>Date.now()\<close>; a
  run is punctual when every timer in it is.
\<close>

fun on_time :: "('a, 'r) event \<Rightarrow> ('a, 'r) limiter \<Rightarrow> bool" where
  "on_time Timeout s = (case pc s of Sleeping wake \<Rightarrow> wake \<le> clock s | _ \<Rightarrow> True)"
| "on_time _ s = True"

fun punctual :: "('a, 'r) event list \<Rightarrow> ('a, 'r) limiter \<Rightarrow> bool" where
  "punctual [] s = True"
| "punctual (e # es) s =
     (on_time e s \<and> (case step e s of None \<Rightarrow> True | Some s' \<Rightarrow> punctual es s'))"

subsection \<open>Reading a run\<close>

text \<open>The tasks handed to \<^verbatim>\<open>add\<close> in a run, in the order of the calls.\<close>

fun adds1 :: "('a, 'r) event \<Rightarrow> 'a list" where
  "adds1 (Add fn) = [fn]"
| "adds1 _ = []"

definition adds :: "('a, 'r) event list \<Rightarrow> 'a list" where
  "adds evs = concat (map adds1 evs)"

fun submitted1 :: "('a, 'r) obs \<Rightarrow> 'a list" where
  "submitted1 (Submitted fn) = [fn]"
| "submitted1 _ = []"

fun started1 :: "('a, 'r) obs \<Rightarrow> ('a \<times> rat) list" where
  "started1 (Started fn t) = [(fn, t)]"
| "started1 _ = []"

fun settled1 :: "('a, 'r) obs \<Rightarrow> ('a \<times> (js_error + 'r)) list" where
  "settled1 (Resolved fn v) = [(fn, Inr v)]"
| "settled1 (Rejected fn e) = [(fn, Inl e)]"
| "settled1 _ = []"

definition submitted :: "('a, 'r) obs list \<Rightarrow> 'a list" where
  "submitted tr = concat (map submitted1 tr)"

definition started :: "('a, 'r) obs list \<Rightarrow> ('a \<times> rat) list" where
  "started tr = concat (map started1 tr)"

definition settled :: "('a, 'r) obs list \<Rightarrow> ('a \<times> (js_error + 'r)) list" where
  "settled tr = concat (map settled1 tr)"

text \<open>Consecutive times at least \<open>d\<close> apart.\<close>

fun spaced :: "rat \<Rightarrow> rat list \<Rightarrow> bool" where
  "spaced d (t1 # t2 # ts) = (t1 + d \<le> t2 \<and> spaced d (t2 # ts))"
| "spaced d [t] = True"
| "spaced d [] = True"

fun finishes1 :: "('a, 'r) event \<Rightarrow> (js_error + 'r) list" where
  "finishes1 (Finish outcome) = [outcome]"
| "finishes1 _ = []"

definition finishes :: "('a, 'r) event list \<Rightarrow> (js_error + 'r) list" where
  "finishes evs = concat (map finishes1 evs)"

text \<open>The tasks submitted and not yet settled: the executing one, then the queue.\<close>

definition pending :: "('a, 'r) limiter \<Rightarrow> 'a list" where
  "pending s = (case pc s of Executing fn \<Rightarrow> fn # queue s | _ \<Rightarrow> queue s)"

text \<open>
  A schedule that runs every pending task to its end, the \<open>k\<close>-th of them finishing
  with the \<open>k\<close>-th of the given outcomes: wait for the timer if the drain sleeps, let
  it fire, let the task finish.
\<close>

fun drain_events :: "(js_error + 'r) list \<Rightarrow> ('a, 'r) limiter \<Rightarrow> ('a, 'r) event list" where
  "drain_events [] s = []"
| "drain_events (outcome # outs) s =
     (let evs = (case pc s of
                   Executing fn \<Rightarrow> [Finish outcome]
                 | Sleeping wake \<Rightarrow> [Tick (max 0 (wake - clock s)), Timeout, Finish outcome]
                 | Idle \<Rightarrow> [])
      in evs @ (case run evs s of Some s' \<Rightarrow> drain_events outs s' | None \<Rightarrow> []))"

text \<open>
  Two concrete runs with two tasks. In \<open>demo_run\<close>, at one request per second, the
  timers are on time. In \<open>early_run\<close>, at two requests per second, the second timer,
  due at 1500, fires at 1499.
\<close>

definition demo_run :: "(string, string) event list" where
  "demo_run = [Add ''a'', Add ''b'', Timeout, Finish (Inl (OtherError ''boom'')), Tick 1000, Timeout]"

definition demo_state :: "(string, string) limiter" where
  "demo_state =
     \<lparr>queue = [], processing = True, lastRequestTime = 6000, delayMs = 1000,
      pc = Executing ''b'', clock = 6000,
      trace = [Submitted ''a'', Submitted ''b'', Started ''a'' 5000,
               Rejected ''a'' (OtherError ''boom''), Started ''b'' 6000]\<rparr>"

definition early_run :: "(string, string) event list" where
  "early_run = [Add ''a'', Add ''b'', Timeout, Finish (Inr ''done''), Tick 499, Timeout]"

definition early_state :: "(string, string) limiter" where
  "early_state =
     \<lparr>queue = [], processing = True, lastRequestTime = 1499, delayMs = 500,
      pc = Executing ''b'', clock = 1499,
      trace = [Submitted ''a'', Submitted ''b'', Started ''a'' 1000,
               Resolved ''a'' ''done'', Started ''b'' 1499]\<rparr>"

subsection \<open>The invariants of the drain\<close>

text \<open>
  The first holds in every reachable state. The second, about times, is kept by the
  events that are on time.
\<close>

definition drain_inv :: "('a, 'r) limiter \<Rightarrow> bool" where
  "drain_inv s \<longleftrightarrow>
     (processing s \<longleftrightarrow> pc s \<noteq> Idle)
   \<and> (pc s = Idle \<longrightarrow> queue s = [])
   \<and> (\<forall>w. pc s = Sleeping w \<longrightarrow> queue s \<noteq> [])
   \<and> submitted (trace s) = map fst (started (trace s)) @ queue s
   \<and> map fst (started (trace s)) = map fst (settled (trace s)) @ (case pc s of Executing fn \<Rightarrow> [fn] | _ \<Rightarrow> [])"

definition timing_inv :: "('a, 'r) limiter \<Rightarrow> bool" where
  "timing_inv s \<longleftrightarrow>
     (\<forall>w. pc s = Sleeping w \<longrightarrow> lastRequestTime s + delayMs s \<le> w)
   \<and> spaced (delayMs s) (map snd (started (trace s)))
   \<and> (started (trace s) \<noteq> [] \<longrightarrow> snd (last (started (trace s))) = lastRequestTime s)"

lemma spaced_snoc:
  "spaced d (ts @ [t]) \<longleftrightarrow> spaced d ts \<and> (ts = [] \<or> last ts + d \<le> t)"
  by (induction d ts rule: spaced.induct) auto

lemma submitted_append [simp]: "submitted (tr @ tr') = submitted tr @ submitted tr'"
  by (simp add: submitted_def)

lemma submitted_Cons [simp]: "submitted (x # tr) = submitted1 x @ submitted tr"
  by (simp add: submitted_def)

lemma started_append [simp]: "started (tr @ tr') = started tr @ started tr'"
  by (simp add: started_def)

lemma started_Cons [simp]: "started (x # tr) = started1 x @ started tr"
  by (simp add: started_def)

lemma settled_append [simp]: "settled (tr @ tr') = settled tr @ settled tr'"
  by (simp add: settled_def)

lemma settled_Cons [simp]: "settled (x # tr) = settled1 x @ settled tr"
  by (simp add: settled_def)

lemma submitted_Nil [simp]: "submitted [] = []" by (simp add: submitted_def)
lemma started_Nil [simp]: "started [] = []" by (simp add: started_def)
lemma settled_Nil [simp]: "settled [] = []" by (simp add: settled_def)

lemma settled1_settle [simp]: "settled1 (settle fn out) = [(fn, out)]"
  by (cases out) auto
lemma started1_settle [simp]: "started1 (settle fn out) = []"
  by (cases out) auto
lemma submitted1_settle [simp]: "submitted1 (settle fn out) = []"
  by (cases out) auto

lemma inv_init: "drain_inv (RateLimiter rps t0)"
  by (simp add: drain_inv_def RateLimiter_def)

lemma inv_process:
  assumes "submitted (trace s) = map fst (started (trace s)) @ queue s"
     "map fst (started (trace s)) = map fst (settled (trace s))"
  shows "drain_inv (process s)"
  using assms by (auto simp: drain_inv_def process_def Let_def split: drain.splits)

lemma inv_step:
  assumes "drain_inv s" and "step e s = Some s'"
  shows "drain_inv s'"
proof (cases e)
  case (Add fn)
  show ?thesis
  proof (cases "processing s")
    case True
    with assms Add show ?thesis
      by (auto simp: drain_inv_def add_def Let_def split: drain.splits)
  next
    case False
    with assms Add have s': "s' = process (s\<lparr>queue := queue s @ [fn], trace := trace s @ [Submitted fn]\<rparr>)"
      by (simp add: add_def Let_def)
    from assms False have "pc s = Idle" by (simp add: drain_inv_def)
    with assms show ?thesis unfolding s'
      by (intro inv_process) (auto simp: drain_inv_def)
  qed
next
  case (Tick d)
  with assms show ?thesis
    by (auto simp: drain_inv_def split: drain.splits)
next
  case Timeout
  with assms obtain w where w: "pc s = Sleeping w" "s' = after_wait s"
    by (auto split: drain.splits)
  with assms obtain fn rest where q: "queue s = fn # rest"
    by (cases "queue s") (auto simp: drain_inv_def)
  from assms(1) w q show ?thesis
    by (auto simp: drain_inv_def after_wait_def)
next
  case (Finish out)
  with assms obtain fn where f: "pc s = Executing fn" "s' = after_task fn out s"
    by (auto split: drain.splits)
  from assms(1) f(1) show ?thesis unfolding f(2) after_task_def
    by (intro inv_process) (auto simp: drain_inv_def)
qed

lemma timing_init: "timing_inv (RateLimiter rps t0)"
  by (simp add: timing_inv_def RateLimiter_def)

lemma timing_process:
  assumes "spaced (delayMs s) (map snd (started (trace s)))"
     "started (trace s) \<noteq> [] \<longrightarrow> snd (last (started (trace s))) = lastRequestTime s"
  shows "timing_inv (process s)"
  using assms by (auto simp: timing_inv_def process_def Let_def)

lemma timing_step:
  assumes "timing_inv s" and "on_time e s" and "step e s = Some s'"
  shows "timing_inv s'"
proof (cases e)
  case (Add fn)
  show ?thesis
  proof (cases "processing s")
    case True
    with assms Add show ?thesis
      by (auto simp: timing_inv_def add_def Let_def)
  next
    case False
    with assms Add have s': "s' = process (s\<lparr>queue := queue s @ [fn], trace := trace s @ [Submitted fn]\<rparr>)"
      by (simp add: add_def Let_def)
    from assms(1) show ?thesis unfolding s'
      by (intro timing_process) (auto simp: timing_inv_def)
  qed
next
  case (Tick d)
  with assms show ?thesis
    by (auto simp: timing_inv_def)
next
  case Timeout
  with assms obtain w where w: "pc s = Sleeping w" "w \<le> clock s" "s' = after_wait s"
    by (auto split: drain.splits)
  show ?thesis
  proof (cases "queue s")
    case Nil
    have "timing_inv (process s)"
      using assms(1) by (intro timing_process) (auto simp: timing_inv_def)
    with Nil show ?thesis
      by (simp add: w(3) after_wait_def)
  next
    case (Cons fn rest)
    have sp: "started (trace s) \<noteq> [] \<Longrightarrow>
        last (map snd (started (trace s))) + delayMs s \<le> clock s"
      using assms(1) w by (simp add: timing_inv_def last_map)
    from assms(1) w Cons sp show ?thesis
      by (auto simp: timing_inv_def after_wait_def spaced_snoc)
  qed
next
  case (Finish out)
  with assms obtain fn where f: "pc s = Executing fn" "s' = after_task fn out s"
    by (auto split: drain.splits)
  from assms(1) show ?thesis unfolding f(2) after_task_def
    by (intro timing_process) (auto simp: timing_inv_def)
qed

lemma timing_run:
  "timing_inv s \<Longrightarrow> punctual evs s \<Longrightarrow> run evs s = Some s' \<Longrightarrow> timing_inv s'"
  by (induction evs arbitrary: s) (auto split: option.splits dest: timing_step)

lemma submitted_step:
  "step e s = Some s' \<Longrightarrow> submitted (trace s') = submitted (trace s) @ adds1 e"
  by (cases e) (auto simp: add_def after_wait_def after_task_def process_def Let_def
      split: drain.splits list.splits)

lemma submitted_run:
  "run evs s = Some s' \<Longrightarrow> submitted (trace s') = submitted (trace s) @ adds evs"
proof (induction evs arbitrary: s)
  case Nil
  then show ?case by (simp add: adds_def)
next
  case (Cons e es)
  then obtain s1 where s1: "step e s = Some s1" "run es s1 = Some s'"
    by (auto split: option.splits)
  from submitted_step[OF s1(1)] Cons.IH[OF s1(2)] show ?case
    by (simp add: adds_def)
qed

lemma inv_run:
  "drain_inv s \<Longrightarrow> run evs s = Some s' \<Longrightarrow> drain_inv s'"
  by (induction evs arbitrary: s) (auto split: option.splits dest: inv_step)


lemma run_append:
  "run (xs @ ys) s = (case run xs s of None \<Rightarrow> None | Some s' \<Rightarrow> run ys s')"
  by (induction xs arbitrary: s) (auto split: option.splits)

lemma delayMs_process [simp]: "delayMs (process s) = delayMs s"
  by (simp add: process_def Let_def)

lemma trace_process [simp]: "trace (process s) = trace s"
  by (simp add: process_def Let_def)

lemma queue_process [simp]: "queue (process s) = queue s"
  by (simp add: process_def Let_def)

lemma pc_process_not_Executing [simp]: "pc (process s) \<noteq> Executing fn"
  by (simp add: process_def Let_def)

lemma pending_process [simp]: "pending (process s) = queue s"
  by (simp add: pending_def process_def Let_def)

lemma delayMs_step: "step e s = Some s' \<Longrightarrow> delayMs s' = delayMs s"
  by (cases e) (auto simp: add_def after_wait_def after_task_def Let_def
      split: if_splits drain.splits list.splits)

lemma delayMs_run: "run evs s = Some s' \<Longrightarrow> delayMs s' = delayMs s"
  by (induction evs arbitrary: s) (auto split: option.splits dest: delayMs_step)

lemma settled_step:
  "step e s = Some s' \<Longrightarrow>
   map snd (settled (trace s')) = map snd (settled (trace s)) @ finishes1 e"
  by (cases e) (auto simp: add_def after_wait_def after_task_def Let_def
      split: if_splits drain.splits list.splits)

lemma settled_run:
  "run evs s = Some s' \<Longrightarrow>
   map snd (settled (trace s')) = map snd (settled (trace s)) @ finishes evs"
proof (induction evs arbitrary: s)
  case Nil
  then show ?case by (simp add: finishes_def)
next
  case (Cons e es)
  then obtain s1 where s1: "step e s = Some s1" "run es s1 = Some s'"
    by (auto split: option.splits)
  from settled_step[OF s1(1)] Cons.IH[OF s1(2)] show ?case
    by (simp add: finishes_def)
qed

lemma spaced_nth:
  "spaced d ts \<Longrightarrow> Suc i < length ts \<Longrightarrow> ts ! i + d \<le> ts ! Suc i"
proof (induction d ts arbitrary: i rule: spaced.induct)
  case (1 d t1 t2 ts)
  then show ?case by (cases i) auto
qed auto

lemma inv_pending:
  "drain_inv s \<Longrightarrow> map fst (settled (trace s)) @ pending s = submitted (trace s)"
  by (auto simp: drain_inv_def pending_def split: drain.splits)

lemma drain_progress:
  "drain_inv s \<Longrightarrow> length outs = length (pending s) \<Longrightarrow>
   \<exists>s'. run (drain_events outs s) s = Some s'
      \<and> settled (trace s') = settled (trace s) @ zip (pending s) outs
      \<and> submitted (trace s') = submitted (trace s)
      \<and> pending s' = []"
proof (induction outs arbitrary: s)
  case Nil
  then show ?case by simp
next
  case (Cons out outs)
  show ?case
  proof (cases "pc s")
    case Idle
    with Cons.prems show ?thesis by (simp add: drain_inv_def pending_def)
  next
    case (Executing fn)
    let ?s1 = "after_task fn out s"
    have st: "step (Finish out) s = Some ?s1" using Executing by simp
    have i1: "drain_inv ?s1" using Cons.prems(1) st by (rule inv_step)
    have p1: "pending ?s1 = queue s" by (simp add: after_task_def)
    have "length outs = length (queue s)"
      using Cons.prems(2) Executing by (simp add: pending_def)
    then have l1: "length outs = length (pending ?s1)"
      by (simp only: p1)
    from Cons.IH[OF i1 l1] obtain s' where s':
      "run (drain_events outs ?s1) ?s1 = Some s'"
      "settled (trace s') = settled (trace ?s1) @ zip (pending ?s1) outs"
      "submitted (trace s') = submitted (trace ?s1)" "pending s' = []"
      by blast
    have "run (drain_events (out # outs) s) s = Some s'"
      using Executing s'(1) by simp
    moreover have "settled (trace s') = settled (trace s) @ zip (pending s) (out # outs)"
    proof -
      have "pending s = fn # queue s" using Executing by (simp add: pending_def)
      moreover have "settled (trace ?s1) = settled (trace s) @ [(fn, out)]"
        by (simp add: after_task_def)
      ultimately show ?thesis using s'(2) by (simp add: p1)
    qed
    moreover have "submitted (trace s') = submitted (trace s)"
      using s'(3) by (simp add: after_task_def)
    ultimately show ?thesis using s'(4) by blast
  next
    case (Sleeping w)
    with Cons.prems(1) obtain fn rest where q: "queue s = fn # rest"
      by (cases "queue s") (auto simp: drain_inv_def)
    let ?d = "max 0 (w - clock s)"
    let ?s1 = "s\<lparr>clock := clock s + ?d\<rparr>"
    let ?s2 = "after_wait ?s1"
    let ?s3 = "after_task fn out ?s2"
    have st1: "step (Tick ?d) s = Some ?s1" by simp
    have st2: "step Timeout ?s1 = Some ?s2" using Sleeping by simp
    have pc2: "pc ?s2 = Executing fn" using q by (simp add: after_wait_def)
    have st3: "step (Finish out) ?s2 = Some ?s3" using pc2 by simp
    have r3: "run [Tick ?d, Timeout, Finish out] s = Some ?s3"
      using st1 st2 st3 by simp
    have i3: "drain_inv ?s3"
      using Cons.prems(1) r3 by (rule inv_run)
    have p3: "pending ?s3 = rest" using q by (simp add: after_task_def after_wait_def)
    have "length outs = length rest"
      using Cons.prems(2) Sleeping q by (simp add: pending_def)
    then have l3: "length outs = length (pending ?s3)"
      by (simp only: p3)
    from Cons.IH[OF i3 l3] obtain s' where s':
      "run (drain_events outs ?s3) ?s3 = Some s'"
      "settled (trace s') = settled (trace ?s3) @ zip (pending ?s3) outs"
      "submitted (trace s') = submitted (trace ?s3)" "pending s' = []"
      by blast
    have de: "drain_events (out # outs) s = [Tick ?d, Timeout, Finish out] @ drain_events outs ?s3"
      using Sleeping r3 by (simp del: run.simps step.simps)
    have "run (drain_events (out # outs) s) s = Some s'"
      unfolding de run_append using r3 s'(1) by (simp del: run.simps step.simps)
    moreover have "settled (trace s') = settled (trace s) @ zip (pending s) (out # outs)"
    proof -
      have "pending s = fn # rest" using Sleeping q by (simp add: pending_def)
      moreover have "settled (trace ?s3) = settled (trace s) @ [(fn, out)]"
        using q by (simp add: after_task_def after_wait_def)
      ultimately show ?thesis using s'(2) by (simp add: p3)
    qed
    moreover have "submitted (trace s') = submitted (trace s)"
      using s'(3) q by (simp add: after_task_def after_wait_def)
    ultimately show ?thesis using s'(4) by blast
  qed
qed

lemma demo_run_state: "run demo_run (RateLimiter 1 5000) = Some demo_state"
  by (simp add: demo_run_def demo_state_def RateLimiter_def add_def process_def
      after_wait_def after_task_def Let_def)

lemma early_run_state: "run early_run (RateLimiter 2 1000) = Some early_state"
  by (simp add: early_run_def early_state_def RateLimiter_def add_def process_def
      after_wait_def after_task_def Let_def)

lemma demo_run_punctual: "punctual demo_run (RateLimiter 1 5000)"
  by (simp add: demo_run_def RateLimiter_def add_def process_def
      after_wait_def after_task_def Let_def)

text \<open>
  C1 fails as stated. At two requests per second the interval is 500 ms; in
  \<open>early_run\<close> the first task starts at 1000 and ends at once, the timer for the second
  is set for 1500 and fires at 1499, and the second task starts then, 499 ms after the
  first: \<^verbatim>\<open>process()\<close> does not read the clock again after the timer.
\<close>

theorem rate_limiter_spacing_counterexample:
  "run early_run (RateLimiter 2 1000) = Some early_state
   \<and> adds early_run = [''a'', ''b'']
   \<and> started (trace early_state) = [(''a'', 1000), (''b'', 1499)]
   \<and> \<not> (snd (started (trace early_state) ! 0) + 1000 / 2
          \<le> snd (started (trace early_state) ! Suc 0))"
  using early_run_state
  by (simp add: early_state_def early_run_def adds_def)

text \<open>
  C1, as amended. In every state the limiter can reach, whatever the callers, the clock,
  the timers and the tasks do, the tasks started so far are the first of the tasks handed
  to \<^verbatim>\<open>add\<close>, in the order of the calls, and the rest of them wait in the queue in
  that order (FIFO). When the rate is not zero and every timer of the run fired no
  earlier than its due time, any two consecutive start times are at least
  \<open>1000 / requestsPerSecond\<close> milliseconds apart.
\<close>

theorem rate_limiter_fifo_spacing:
  assumes "run evs (RateLimiter requestsPerSecond t0) = Some s"
  shows "adds evs = map fst (started (trace s)) @ queue s
    \<and> map fst (started (trace s)) = take (length (started (trace s))) (adds evs)
    \<and> (requestsPerSecond \<noteq> 0 \<and> punctual evs (RateLimiter requestsPerSecond t0) \<longrightarrow>
         (\<forall>i. Suc i < length (started (trace s)) \<longrightarrow>
            snd (started (trace s) ! i) + 1000 / requestsPerSecond
              \<le> snd (started (trace s) ! Suc i)))"
proof -
  have i: "drain_inv s" using inv_init assms by (rule inv_run)
  have d: "delayMs s = 1000 / requestsPerSecond"
    using delayMs_run[OF assms] by (simp add: RateLimiter_def)
  have a: "submitted (trace s) = adds evs"
    using submitted_run[OF assms] by (simp add: RateLimiter_def)
  have q: "adds evs = map fst (started (trace s)) @ queue s"
    using i a by (simp add: drain_inv_def)
  then have fifo: "map fst (started (trace s)) = take (length (started (trace s))) (adds evs)"
    by simp
  have "snd (started (trace s) ! i) + 1000 / requestsPerSecond \<le> snd (started (trace s) ! Suc i)"
    if p: "punctual evs (RateLimiter requestsPerSecond t0)"
      and l: "Suc i < length (started (trace s))" for i
  proof -
    have "timing_inv s" using timing_init p assms by (rule timing_run)
    then have sp: "spaced (1000 / requestsPerSecond) (map snd (started (trace s)))"
      using d by (simp add: timing_inv_def)
    from spaced_nth[OF sp, of i] l show ?thesis by simp
  qed
  with q fifo show ?thesis by blast
qed

text \<open>
  C9. In every reachable state, the promises settled so far are those of the first
  tasks handed to \<^verbatim>\<open>add\<close>, in the order of the calls, the remaining tasks are
  pending, and the \<open>k\<close>-th settled promise carries the outcome with which the
  \<open>k\<close>-th executed task finished (a result resolves it, an error rejects it).
  Earlier failures do not abort the queue: for any outcomes of the tasks still pending,
  the schedule \<open>drain_events\<close> runs all of them, after which every task handed to
  \<^verbatim>\<open>add\<close> has been settled, each pending one with its own outcome.
\<close>

theorem rate_limiter_outcomes:
  assumes "run evs (RateLimiter requestsPerSecond t0) = Some s"
    and "length outs = length (pending s)"
  shows "map snd (settled (trace s)) = finishes evs
    \<and> map fst (settled (trace s)) @ pending s = adds evs
    \<and> (\<exists>s'. run (drain_events outs s) s = Some s'
          \<and> settled (trace s') = settled (trace s) @ zip (pending s) outs
          \<and> map fst (settled (trace s')) = adds evs
          \<and> pending s' = [])"
proof -
  have i: "drain_inv s" using inv_init assms(1) by (rule inv_run)
  have a: "map snd (settled (trace s)) = finishes evs"
    using settled_run[OF assms(1)] by (simp add: RateLimiter_def)
  have "submitted (trace s) = adds evs"
    using submitted_run[OF assms(1)] by (simp add: RateLimiter_def)
  with inv_pending[OF i] have b: "map fst (settled (trace s)) @ pending s = adds evs"
    by simp
  from drain_progress[OF i assms(2)] obtain s' where s':
    "run (drain_events outs s) s = Some s'"
    "settled (trace s') = settled (trace s) @ zip (pending s) outs"
    "pending s' = []"
    by blast
  have "map fst (settled (trace s')) = adds evs"
    using s'(2) b assms(2) by (simp add: map_fst_zip)
  with a b s' show ?thesis by blast
qed

text \<open>
  The run \<open>demo_run\<close> at one request per second: two tasks submitted at time 5000,
  the first starts at once and fails, the timer for the second fires when due and the
  second starts 1000 ms after the first.
\<close>

theorem rate_limiter_fifo_spacing_witness:
  "run demo_run (RateLimiter 1 5000) = Some demo_state
   \<and> (1::rat) \<noteq> 0 \<and> punctual demo_run (RateLimiter 1 5000)
   \<and> adds demo_run = [''a'', ''b'']
   \<and> started (trace demo_state) = [(''a'', 5000), (''b'', 6000)]
   \<and> queue demo_state = []
   \<and> map fst (started (trace demo_state)) =
       take (length (started (trace demo_state))) (adds demo_run)
   \<and> snd (started (trace demo_state) ! 0) + 1000 / 1 \<le> snd (started (trace demo_state) ! Suc 0)"
proof -
  have st: "started (trace demo_state) = [(''a'', 5000), (''b'', 6000)]"
    by (simp add: demo_state_def)
  have ad: "adds demo_run = [''a'', ''b'']"
    by (simp add: adds_def demo_run_def)
  have l: "Suc 0 < length (started (trace demo_state))"
    by (simp add: st)
  note t = rate_limiter_fifo_spacing [OF demo_run_state]
  have "snd (started (trace demo_state) ! 0) + 1000 / 1 \<le> snd (started (trace demo_state) ! Suc 0)"
    using t[THEN conjunct2, THEN conjunct2] demo_run_punctual l by simp
  moreover have "map fst (started (trace demo_state)) =
       take (length (started (trace demo_state))) (adds demo_run)"
    using t[THEN conjunct2, THEN conjunct1] .
  ultimately show ?thesis
    using st ad demo_run_state demo_run_punctual by (simp add: demo_state_def)
qed

text \<open>
  After \<open>demo_run\<close> the first task has been rejected and the second is executing;
  letting it finish with a result resolves its own promise, and both tasks handed to
  \<^verbatim>\<open>add\<close> are settled.
\<close>

theorem rate_limiter_outcomes_witness:
  "run demo_run (RateLimiter 1 5000) = Some demo_state
   \<and> length [Inr ''done'' :: js_error + string] = length (pending demo_state)
   \<and> adds demo_run = [''a'', ''b'']
   \<and> settled (trace demo_state) = [(''a'', Inl (OtherError ''boom''))]
   \<and> finishes demo_run = [Inl (OtherError ''boom'')]
   \<and> (\<exists>s'. run (drain_events [Inr ''done''] demo_state) demo_state = Some s'
         \<and> settled (trace s') = [(''a'', Inl (OtherError ''boom'')), (''b'', Inr ''done'')]
         \<and> map fst (settled (trace s')) = [''a'', ''b'']
         \<and> pending s' = [])"
proof -
  have p: "pending demo_state = [''b'']"
    by (simp add: demo_state_def pending_def)
  have l: "length [Inr ''done'' :: js_error + string] = length (pending demo_state)"
    by (simp add: p)
  have ad: "adds demo_run = [''a'', ''b'']"
    by (simp add: adds_def demo_run_def)
  have st: "settled (trace demo_state) = [(''a'', Inl (OtherError ''boom''))]"
    by (simp add: demo_state_def)
  have f: "finishes demo_run = [Inl (OtherError ''boom'')]"
    by (simp add: finishes_def demo_run_def)
  from rate_limiter_outcomes [OF demo_run_state l]
  show ?thesis using demo_run_state l st f p ad by simp
qed


section \<open>Strings\<close>

text \<open>
  A string is a list of characters, one for each code unit, so that \<open>length\<close> is
  \<^verbatim>\<open>.length\<close>. The methods \<^verbatim>\<open>String.prototype.toLowerCase\<close> and
  \<^verbatim>\<open>String.prototype.trim\<close> belong to the platform, not to the repository: they are
  parameters of the scrapers, which receive them as the record \<open>str\<close>, and every
  theorem about the scrapers holds whatever the two methods are.
\<close>

record string_methods =
  toLowerCase :: "string \<Rightarrow> string"
  trim :: "string \<Rightarrow> string"

text \<open>
  \<^verbatim>\<open>a || d\<close> for an optional string \<open>a\<close>: the default \<open>d\<close> replaces a missing and
  an empty value, both being falsy.
\<close>

definition or_else :: "string option \<Rightarrow> string \<Rightarrow> string" where
  "or_else a d = (case a of None \<Rightarrow> d | Some v \<Rightarrow> if v = [] then d else v)"

text \<open>
  \<^verbatim>\<open>name.replace(/IPO:|Acquired By:/i, "")\<close>: the leftmost match of either
  alternative is removed; without the \<^verbatim>\<open>g\<close> flag only the first match is. Under
  the flag \<^verbatim>\<open>i\<close> (and without \<^verbatim>\<open>u\<close>) a code unit matches a pattern character when
  their canonical forms agree, the canonical form being the upper case, except that a
  code unit outside ASCII is never taken to an ASCII one. Since the two patterns are
  ASCII, a code unit matches when it is the pattern character up to the case of the
  letters A to Z, which is what \<open>fold_case\<close> compares.
\<close>

definition fold_case_char :: "char \<Rightarrow> char" where
  "fold_case_char c =
     (case map_of (zip ''ABCDEFGHIJKLMNOPQRSTUVWXYZ'' ''abcdefghijklmnopqrstuvwxyz'') c of
        Some l \<Rightarrow> l
      | None \<Rightarrow> c)"

definition fold_case :: "string \<Rightarrow> string" where
  "fold_case s = map fold_case_char s"

definition matches_at :: "string \<Rightarrow> string \<Rightarrow> bool" where
  "matches_at pat s = (fold_case (take (length pat) s) = fold_case pat)"

fun remove_noise :: "string \<Rightarrow> string" where
  "remove_noise [] = []"
| "remove_noise (c # cs) =
     (if matches_at ''IPO:'' (c # cs) then drop 4 (c # cs)
      else if matches_at ''Acquired By:'' (c # cs) then drop 12 (c # cs)
      else c # remove_noise cs)"

text \<open>
  The two methods on strings whose code units are below 256, the characters that a
  \<open>char\<close> holds: \<^verbatim>\<open>toLowerCase\<close> takes A to Z and the capital letters of
  Latin-1 (U+00C0 to U+00DE without the multiplication sign U+00D7) to the letters 32
  above them, and \<^verbatim>\<open>trim\<close> removes tab, line feed, vertical tab, form feed,
  carriage return, space and no-break space at both ends. The concrete inputs of this
  theory are run with them.
\<close>

definition latin1_lower :: "char \<Rightarrow> char" where
  "latin1_lower c =
     (let n = (of_char c :: nat) in
      if (65 \<le> n \<and> n \<le> 90) \<or> (192 \<le> n \<and> n \<le> 222 \<and> n \<noteq> 215)
      then char_of (n + 32) else c)"

definition latin1_space :: "char \<Rightarrow> bool" where
  "latin1_space c =
     (let n = (of_char c :: nat) in (9 \<le> n \<and> n \<le> 13) \<or> n = 32 \<or> n = 160)"

definition latin1 :: string_methods where
  "latin1 =
     \<lparr>toLowerCase = map latin1_lower,
      trim = (\<lambda>s. rev (dropWhile latin1_space (rev (dropWhile latin1_space s))))\<rparr>"

text \<open>\<^verbatim>\<open>Partial<Startup>\<close>: every field may be missing.\<close>

record startup =
  name :: "string option"
  website :: "string option"
  linkedin_url :: "string option"
  source :: "string option"

text \<open>
  \<^verbatim>\<open>validateCompany\<close>: a missing or empty name, or a name whose trimmed length is
  below 2, is rejected.
\<close>

definition validateCompany :: "string_methods \<Rightarrow> startup \<Rightarrow> bool" where
  "validateCompany str company =
     (case name company of
        None \<Rightarrow> False
      | Some n \<Rightarrow> if n = [] \<or> length (trim str n) < 2 then False else True)"

text \<open>
  \<^verbatim>\<open>getLinkedInUrl(companyName)\<close>: \<open>search\<close> is the outcome of the search request
  for the company (through \<^verbatim>\<open>fetchWithRetry\<close>) with the \<^verbatim>\<open>href\<close> of the first
  matching link, if any. Every failure is caught and gives the empty string.
\<close>

definition getLinkedInUrl :: "(string \<Rightarrow> js_error + string option) \<Rightarrow> string \<Rightarrow> string" where
  "getLinkedInUrl search companyName =
     (case search companyName of
        Inr href \<Rightarrow> or_else href ''''
      | Inl error \<Rightarrow> '''')"

text \<open>
  Both scrapers keep the accepted records and the set of lower-case names seen. Each
  calls \<^verbatim>\<open>getLinkedInUrl\<close> inside a \<^verbatim>\<open>try\<close> block; the scrapers below take
  the outcome of that awaited call as a function \<open>lookup\<close> of the company name, which
  may be a rejection, so that the \<^verbatim>\<open>catch\<close> branches of the source are branches of
  the model. The \<open>lookup\<close> of the source is \<open>Inr \<circ> getLinkedInUrl search\<close>.
\<close>

record collected =
  startups :: "startup list"
  processedNames :: "string set"

section \<open>The portfolio-page scraper\<close>

text \<open>
  One matched element of the page, reduced to what the scraper reads of it:
  \<^verbatim>\<open>attr("data-name")\<close>, \<^verbatim>\<open>find(".builder-title span").text()\<close> and
  \<^verbatim>\<open>find("h1,h2,h3,h4,h5,h6").first().text()\<close>.
\<close>

record element =
  data_name :: "string option"
  builder_title :: string
  heading :: string

text \<open>The chain \<^verbatim>\<open>attr || text.trim() || text.trim()\<close>.\<close>

definition element_name :: "string_methods \<Rightarrow> element \<Rightarrow> string" where
  "element_name str el =
     (let a = or_else (data_name el) [] in
      if a \<noteq> [] then a
      else let b = trim str (builder_title el) in
        if b \<noteq> [] then b else trim str (heading el))"

text \<open>
  The run of the scraper: the records and names collected, and \<open>tried\<close>, the selectors
  queried so far (each query is logged by the source).
\<close>

record a16z_run = collected +
  tried :: "string list"

text \<open>The body of \<^verbatim>\<open>for (const item of items)\<close>.\<close>

definition process_item ::
  "string_methods \<Rightarrow> (string \<Rightarrow> js_error + string) \<Rightarrow> element \<Rightarrow> a16z_run \<Rightarrow> a16z_run" where
  "process_item str lookup el st =
     (let found = element_name str el in
      if found \<noteq> [] then
        let nm = trim str (remove_noise found) in
        if toLowerCase str nm \<notin> processedNames st then
          (case lookup nm of
             Inl error \<Rightarrow> st
           | Inr url \<Rightarrow>
               let companyData = \<lparr>name = Some nm, website = Some ''not found'',
                                  linkedin_url = Some url, source = Some ''a16z''\<rparr>
               in if validateCompany str companyData
                  then st\<lparr>startups := startups st @ [companyData],
                          processedNames := insert (toLowerCase str nm) (processedNames st)\<rparr>
                  else st)
        else st
      else st)"

definition A16Z_SELECTORS :: "string list" where
  "A16Z_SELECTORS =
     [''.company-grid-item'', ''.builder'', ''[data-v-7c2c5638].builder'',
      ''[data-filter-by]'', ''[data-name]'', ''.portfolio-company'',
      ''.portfolio-grid > div'']"

definition A16Z_URLS :: "string list" where
  "A16Z_URLS = [''https://a16z.com/portfolio/'']"

text \<open>
  \<^verbatim>\<open>for (const selector of selectors)\<close>: \<open>doc selector\<close> is
  \<^verbatim>\<open>$(selector).toArray()\<close>. The loop is left only when records have been accepted.
\<close>

fun try_selectors ::
  "string_methods \<Rightarrow> (string \<Rightarrow> js_error + string) \<Rightarrow> (string \<Rightarrow> element list) \<Rightarrow> string list \<Rightarrow>
   a16z_run \<Rightarrow> a16z_run" where
  "try_selectors str lookup doc [] st = st"
| "try_selectors str lookup doc (selector # selectors) st =
     (let items = doc selector;
          st0 = st\<lparr>tried := tried st @ [selector]\<rparr>
      in if length items > 0 then
           let st1 = fold (process_item str lookup) items st0 in
           if length (startups st1) > 0 then st1
           else try_selectors str lookup doc selectors st1
         else try_selectors str lookup doc selectors st0)"

text \<open>
  \<^verbatim>\<open>for (const url of urls)\<close>: \<open>fetch url\<close> is the outcome of
  \<^verbatim>\<open>fetchWithRetry(url, ...)\<close> with the page parsed; a rejection is caught and the next
  URL is tried.
\<close>

fun try_urls ::
  "string_methods \<Rightarrow> (string \<Rightarrow> js_error + string) \<Rightarrow> (string \<Rightarrow> js_error + (string \<Rightarrow> element list)) \<Rightarrow>
   string list \<Rightarrow> a16z_run \<Rightarrow> a16z_run" where
  "try_urls str lookup fetch [] st = st"
| "try_urls str lookup fetch (url # urls) st =
     (case fetch url of
        Inl error \<Rightarrow> try_urls str lookup fetch urls st
      | Inr doc \<Rightarrow>
          let st1 = try_selectors str lookup doc A16Z_SELECTORS st in
          if length (startups st1) > 0 then st1
          else try_urls str lookup fetch urls st1)"

definition scrapeA16z_run ::
  "string_methods \<Rightarrow> (string \<Rightarrow> js_error + (string \<Rightarrow> element list)) \<Rightarrow> (string \<Rightarrow> js_error + string) \<Rightarrow>
   a16z_run" where
  "scrapeA16z_run str fetch lookup =
     try_urls str lookup fetch A16Z_URLS \<lparr>startups = [], processedNames = {}, tried = []\<rparr>"

definition scrapeA16z ::
  "string_methods \<Rightarrow> (string \<Rightarrow> js_error + (string \<Rightarrow> element list)) \<Rightarrow> (string \<Rightarrow> js_error + string) \<Rightarrow>
   startup list" where
  "scrapeA16z str fetch lookup = startups (scrapeA16z_run str fetch lookup)"

section \<open>The directory scraper\<close>

text \<open>
  One entry of \<^verbatim>\<open>response.data.companies\<close> (its \<^verbatim>\<open>name\<close> and \<^verbatim>\<open>website\<close>),
  and what the scraper reads of a response: the list \<^verbatim>\<open>response.data.companies || []\<close>
  and the truth value of \<^verbatim>\<open>response.data.next || response.data.nextPage\<close>.
\<close>

record company =
  company_name :: "string option"
  company_website :: "string option"

record page_data =
  companies :: "company list"
  next_page :: bool

text \<open>
  What a fetched response holds. The entries of a \<open>company list\<close> are objects whose
  name is a string or falsy. \<open>Listing data\<close> is a body that lists such entries only.
  \<open>Broken handled\<close> is a body whose processing throws outside the per-company
  \<^verbatim>\<open>try\<close>: \<^verbatim>\<open>response.data\<close> is null, so that reading
  \<^verbatim>\<open>response.data.companies\<close> throws, or \<^verbatim>\<open>companies\<close> cannot be iterated (then
  \<open>handled\<close> is empty), or the entries \<open>handled\<close> are followed by an entry
  that is null or whose name is truthy and not a string, so that \<^verbatim>\<open>company.name\<close> or
  \<^verbatim>\<open>company.name.toLowerCase()\<close> throws in the condition of the \<^verbatim>\<open>if\<close>.
\<close>

datatype page_body = Listing page_data | Broken "company list"

text \<open>
  The variables of \<^verbatim>\<open>scrapeYCombinator\<close>; \<open>fetched\<close> lists the page indices
  requested so far (each request is logged by the source).
\<close>

record yc_run = collected +
  page :: nat
  hasMore :: bool
  consecutiveErrors :: nat
  fetched :: "nat list"

definition MAX_CONSECUTIVE_ERRORS :: nat where
  "MAX_CONSECUTIVE_ERRORS = 3"

definition YC_BATCHES :: "string list" where
  "YC_BATCHES = [''W24'']"

text \<open>The body of \<^verbatim>\<open>for (const company of companies)\<close>.\<close>

definition process_company ::
  "string_methods \<Rightarrow> (string \<Rightarrow> js_error + string) \<Rightarrow> string \<Rightarrow> company \<Rightarrow> yc_run \<Rightarrow> yc_run" where
  "process_company str lookup batch c st =
     (let nm = or_else (company_name c) [] in
      if nm \<noteq> [] \<and> toLowerCase str nm \<notin> processedNames st then
        (case lookup nm of
           Inl error \<Rightarrow> st\<lparr>consecutiveErrors := consecutiveErrors st + 1\<rparr>
         | Inr url \<Rightarrow>
             let startup = \<lparr>name = Some nm,
                            website = Some (or_else (company_website c) ''not found''),
                            linkedin_url = Some (or_else (Some url) ''not found''),
                            source = Some (''YC '' @ batch)\<rparr>
             in if validateCompany str startup
                then st\<lparr>startups := startups st @ [startup],
                        processedNames := insert (toLowerCase str nm) (processedNames st)\<rparr>
                else st)
      else st)"

text \<open>
  One iteration of the \<^verbatim>\<open>while\<close> loop, given the outcome of the page request. A
  failed request is caught by the page-level \<^verbatim>\<open>catch\<close>, which counts it and leaves
  the page index as it is. So is the exception of a broken body, after the entries before
  it have been handled: what they added stays, and the counter is not reset. An
  empty company list sets \<^verbatim>\<open>hasMore = false\<close> and breaks; the loop condition of
  \<open>cohort_loop\<close> then ends the loop with nothing else done, as the \<^verbatim>\<open>break\<close> does.
  The waits (\<^verbatim>\<open>delay(1000)\<close> between companies and pages, \<^verbatim>\<open>delay(5000)\<close>
  after a failed request) change no variable and are left out.
\<close>

definition cohort_step ::
  "string_methods \<Rightarrow> (string \<Rightarrow> js_error + string) \<Rightarrow> string \<Rightarrow>
   js_error + page_body \<Rightarrow> yc_run \<Rightarrow> yc_run" where
  "cohort_step str lookup batch response st =
     (let st0 = st\<lparr>fetched := fetched st @ [page st]\<rparr> in
      case response of
        Inl error \<Rightarrow> st0\<lparr>consecutiveErrors := consecutiveErrors st0 + 1\<rparr>
      | Inr (Broken handled) \<Rightarrow>
          let st1 = fold (process_company str lookup batch) handled st0
          in st1\<lparr>consecutiveErrors := consecutiveErrors st1 + 1\<rparr>
      | Inr (Listing data) \<Rightarrow>
          if length (companies data) = 0 then st0\<lparr>hasMore := False\<rparr>
          else
            let st1 = fold (process_company str lookup batch) (companies data) st0
            in st1\<lparr>consecutiveErrors := 0, page := page st1 + 1, hasMore := next_page data\<rparr>)"

text \<open>
  The \<^verbatim>\<open>while (hasMore && consecutiveErrors < MAX_CONSECUTIVE_ERRORS)\<close> loop. The
  directory API is the list of the outcomes of the page requests, in the order in which
  they are made; the loop returns its final variables and the outcomes it did not
  consume. \<open>None\<close> means that the loop asks for a page beyond the given outcomes.
\<close>

fun cohort_loop ::
  "string_methods \<Rightarrow> (string \<Rightarrow> js_error + string) \<Rightarrow> string \<Rightarrow> (js_error + page_body) list \<Rightarrow> yc_run \<Rightarrow>
   (yc_run \<times> (js_error + page_body) list) option" where
  "cohort_loop str lookup batch responses st =
     (if hasMore st \<and> consecutiveErrors st < MAX_CONSECUTIVE_ERRORS then
        (case responses of
           [] \<Rightarrow> None
         | response # rest \<Rightarrow> cohort_loop str lookup batch rest (cohort_step str lookup batch response st))
      else Some (st, responses))"

declare cohort_loop.simps [simp del]

text \<open>\<^verbatim>\<open>for (const batch of YC_BATCHES)\<close>, each batch with fresh loop variables.\<close>

fun scrape_batches ::
  "string_methods \<Rightarrow> (string \<Rightarrow> js_error + string) \<Rightarrow> string list \<Rightarrow> (js_error + page_body) list \<Rightarrow> yc_run \<Rightarrow>
   (yc_run \<times> (js_error + page_body) list) option" where
  "scrape_batches str lookup [] responses st = Some (st, responses)"
| "scrape_batches str lookup (batch # batches) responses st =
     (case cohort_loop str lookup batch responses
             (st\<lparr>page := 0, hasMore := True, consecutiveErrors := 0\<rparr>) of
        None \<Rightarrow> None
      | Some (st1, rest) \<Rightarrow> scrape_batches str lookup batches rest st1)"

text \<open>The variables before the first request.\<close>

definition yc_start :: yc_run where
  "yc_start =
     \<lparr>startups = [], processedNames = {}, page = 0, hasMore = True,
      consecutiveErrors = 0, fetched = []\<rparr>"

definition scrapeYCombinator_run ::
  "string_methods \<Rightarrow> (string \<Rightarrow> js_error + string) \<Rightarrow> (js_error + page_body) list \<Rightarrow>
   (yc_run \<times> (js_error + page_body) list) option" where
  "scrapeYCombinator_run str lookup responses =
     scrape_batches str lookup YC_BATCHES responses yc_start"

definition scrapeYCombinator ::
  "string_methods \<Rightarrow> (string \<Rightarrow> js_error + string) \<Rightarrow> (js_error + page_body) list \<Rightarrow> startup list option" where
  "scrapeYCombinator str lookup responses =
     map_option (\<lambda>(st, rest). startups st) (scrapeYCombinator_run str lookup responses)"

section \<open>The Aggregator\<close>

text \<open>
  \<^verbatim>\<open>scrapeStartups\<close>: both scrapers, then
  \<^verbatim>\<open>[...a16zStartups, ...ycStartups]\<close>. Neither scraper rejects (each catches what
  its requests and its pages throw), so the \<^verbatim>\<open>catch\<close> branch, which rethrows, is
  never taken.
\<close>

definition scrapeStartups ::
  "string_methods \<Rightarrow> (string \<Rightarrow> js_error + (string \<Rightarrow> element list)) \<Rightarrow> (string \<Rightarrow> js_error + string) \<Rightarrow>
   (js_error + page_body) list \<Rightarrow> startup list option" where
  "scrapeStartups str fetch lookup responses =
     (case scrapeYCombinator str lookup responses of
        None \<Rightarrow> None
      | Some ycStartups \<Rightarrow> Some (scrapeA16z str fetch lookup @ ycStartups))"


section \<open>Deduplication\<close>

definition lower_names :: "string_methods \<Rightarrow> startup list \<Rightarrow> string list" where
  "lower_names str rs = map (\<lambda>r. toLowerCase str (or_else (name r) [])) rs"

text \<open>
  The deduplication step as the specification words it: of the candidates that share
  a case-insensitive key, the first encountered is kept and the rest are dropped;
  \<open>seen\<close> holds the lower-case keys met before.
\<close>

fun keep_first :: "string_methods \<Rightarrow> ('a \<Rightarrow> string) \<Rightarrow> 'a list \<Rightarrow> string set \<Rightarrow> 'a list" where
  "keep_first str key [] seen = []"
| "keep_first str key (x # xs) seen =
     (if toLowerCase str (key x) \<in> seen then keep_first str key xs seen
      else x # keep_first str key xs (insert (toLowerCase str (key x)) seen))"

text \<open>The name an element stands for, whether it is accepted, and the record built.\<close>

definition item_name :: "string_methods \<Rightarrow> element \<Rightarrow> string" where
  "item_name str el = trim str (remove_noise (element_name str el))"

definition accepted_item :: "string_methods \<Rightarrow> (string \<Rightarrow> js_error + string) \<Rightarrow> element \<Rightarrow> bool" where
  "accepted_item str lookup el \<longleftrightarrow>
     element_name str el \<noteq> [] \<and> \<not> isl (lookup (item_name str el))
     \<and> item_name str el \<noteq> [] \<and> 2 \<le> length (trim str (item_name str el))"

definition a16z_startup :: "string_methods \<Rightarrow> (string \<Rightarrow> js_error + string) \<Rightarrow> element \<Rightarrow> startup" where
  "a16z_startup str lookup el =
     \<lparr>name = Some (item_name str el), website = Some ''not found'',
      linkedin_url = Some (projr (lookup (item_name str el))), source = Some ''a16z''\<rparr>"

definition listed_name :: "company \<Rightarrow> string" where
  "listed_name c = or_else (company_name c) []"

definition accepted_company :: "string_methods \<Rightarrow> (string \<Rightarrow> js_error + string) \<Rightarrow> company \<Rightarrow> bool" where
  "accepted_company str lookup c \<longleftrightarrow>
     listed_name c \<noteq> [] \<and> \<not> isl (lookup (listed_name c))
     \<and> 2 \<le> length (trim str (listed_name c))"

definition yc_startup :: "(string \<Rightarrow> js_error + string) \<Rightarrow> string \<Rightarrow> company \<Rightarrow> startup" where
  "yc_startup lookup batch c =
     \<lparr>name = Some (listed_name c),
      website = Some (or_else (company_website c) ''not found''),
      linkedin_url = Some (or_else (Some (projr (lookup (listed_name c)))) ''not found''),
      source = Some (''YC '' @ batch)\<rparr>"

text \<open>
  The records accepted so far have pairwise different lower-case names, all of them in
  the set of seen names.
\<close>

definition dedup_inv :: "string_methods \<Rightarrow> 'a collected_scheme \<Rightarrow> bool" where
  "dedup_inv str st \<longleftrightarrow>
     distinct (lower_names str (startups st)) \<and> set (lower_names str (startups st)) \<subseteq> processedNames st"

lemma process_item_cases:
  "process_item str lookup el st =
     (if accepted_item str lookup el \<and> toLowerCase str (item_name str el) \<notin> processedNames st
      then st\<lparr>startups := startups st @ [a16z_startup str lookup el],
              processedNames := insert (toLowerCase str (item_name str el)) (processedNames st)\<rparr>
      else st)"
  by (cases "lookup (item_name str el)")
     (auto simp: process_item_def accepted_item_def item_name_def a16z_startup_def
        validateCompany_def Let_def)

lemma process_company_cases:
  "process_company str lookup batch c st =
     (if listed_name c \<noteq> [] \<and> toLowerCase str (listed_name c) \<notin> processedNames st then
        if isl (lookup (listed_name c)) then st\<lparr>consecutiveErrors := consecutiveErrors st + 1\<rparr>
        else if 2 \<le> length (trim str (listed_name c))
        then st\<lparr>startups := startups st @ [yc_startup lookup batch c],
                processedNames := insert (toLowerCase str (listed_name c)) (processedNames st)\<rparr>
        else st
      else st)"
  by (cases "lookup (listed_name c)")
     (auto simp: process_company_def listed_name_def yc_startup_def
        validateCompany_def Let_def)

lemma process_item_accept:
  "accepted_item str lookup el \<Longrightarrow> toLowerCase str (item_name str el) \<notin> processedNames st \<Longrightarrow>
   process_item str lookup el st =
     st\<lparr>startups := startups st @ [a16z_startup str lookup el],
        processedNames := insert (toLowerCase str (item_name str el)) (processedNames st)\<rparr>"
  by (simp add: process_item_cases)

lemma process_item_skip:
  "\<not> (accepted_item str lookup el \<and> toLowerCase str (item_name str el) \<notin> processedNames st) \<Longrightarrow>
   process_item str lookup el st = st"
  by (auto simp: process_item_cases)

lemma process_company_accept:
  "accepted_company str lookup c \<Longrightarrow> toLowerCase str (listed_name c) \<notin> processedNames st \<Longrightarrow>
   process_company str lookup batch c st =
     st\<lparr>startups := startups st @ [yc_startup lookup batch c],
        processedNames := insert (toLowerCase str (listed_name c)) (processedNames st)\<rparr>"
  by (simp add: process_company_cases accepted_company_def)

lemma process_company_skip:
  "\<not> (accepted_company str lookup c \<and> toLowerCase str (listed_name c) \<notin> processedNames st) \<Longrightarrow>
   startups (process_company str lookup batch c st) = startups st
   \<and> processedNames (process_company str lookup batch c st) = processedNames st"
  by (auto simp: process_company_cases accepted_company_def)

lemma process_company_control:
  "page (process_company str lookup batch c st) = page st
   \<and> hasMore (process_company str lookup batch c st) = hasMore st
   \<and> fetched (process_company str lookup batch c st) = fetched st"
  by (simp add: process_company_cases)

lemma fold_process_item:
  "startups (fold (process_item str lookup) items st) =
     startups st @ map (a16z_startup str lookup)
       (keep_first str (item_name str) (filter (accepted_item str lookup) items) (processedNames st))
   \<and> processedNames (fold (process_item str lookup) items st) =
     processedNames st \<union> (toLowerCase str \<circ> item_name str) `
       set (keep_first str (item_name str) (filter (accepted_item str lookup) items) (processedNames st))
   \<and> tried (fold (process_item str lookup) items st) = tried st"
proof (induction items arbitrary: st)
  case Nil
  then show ?case by simp
next
  case (Cons el items)
  show ?case
  proof (cases "accepted_item str lookup el \<and> toLowerCase str (item_name str el) \<notin> processedNames st")
    case True
    then show ?thesis
      by (simp add: Cons.IH process_item_accept)
  next
    case False
    then show ?thesis
      by (auto simp: Cons.IH process_item_skip)
  qed
qed

lemma fold_process_company_control:
  "page (fold (process_company str lookup batch) cs st) = page st
   \<and> hasMore (fold (process_company str lookup batch) cs st) = hasMore st
   \<and> fetched (fold (process_company str lookup batch) cs st) = fetched st"
  by (induction cs arbitrary: st) (simp_all add: process_company_control)

lemma fold_process_company:
  "startups (fold (process_company str lookup batch) cs st) =
     startups st @ map (yc_startup lookup batch)
       (keep_first str listed_name (filter (accepted_company str lookup) cs) (processedNames st))
   \<and> processedNames (fold (process_company str lookup batch) cs st) =
     processedNames st \<union> (toLowerCase str \<circ> listed_name) `
       set (keep_first str listed_name (filter (accepted_company str lookup) cs) (processedNames st))"
proof (induction cs arbitrary: st)
  case Nil
  then show ?case by simp
next
  case (Cons c cs)
  show ?case
  proof (cases "accepted_company str lookup c \<and> toLowerCase str (listed_name c) \<notin> processedNames st")
    case True
    then show ?thesis
      by (simp add: Cons.IH process_company_accept)
  next
    case False
    then show ?thesis
      by (auto simp: Cons.IH process_company_skip)
  qed
qed


lemma lower_names_a16z_startup [simp]:
  "lower_names str [a16z_startup str lookup el] = [toLowerCase str (item_name str el)]"
  by (simp add: lower_names_def a16z_startup_def or_else_def)

lemma lower_names_yc_startup [simp]:
  "listed_name c \<noteq> [] \<Longrightarrow> lower_names str [yc_startup lookup batch c] = [toLowerCase str (listed_name c)]"
  by (simp add: lower_names_def yc_startup_def or_else_def)

lemma lower_names_append [simp]:
  "lower_names str (xs @ ys) = lower_names str xs @ lower_names str ys"
  by (simp add: lower_names_def)

lemma dedup_inv_process_item:
  "dedup_inv str st \<Longrightarrow> dedup_inv str (process_item str lookup el st)"
  by (auto simp: process_item_cases dedup_inv_def)

lemma dedup_inv_fold_items:
  "dedup_inv str st \<Longrightarrow> dedup_inv str (fold (process_item str lookup) items st)"
  by (induction items arbitrary: st) (simp_all add: dedup_inv_process_item)

lemma dedup_inv_tried [simp]:
  "dedup_inv str (st\<lparr>tried := t\<rparr>) = dedup_inv str st"
  by (simp add: dedup_inv_def)

lemma dedup_inv_try_selectors:
  "dedup_inv str st \<Longrightarrow> dedup_inv str (try_selectors str lookup doc selectors st)"
  by (induction selectors arbitrary: st) (simp_all add: Let_def dedup_inv_fold_items)

lemma dedup_inv_try_urls:
  "dedup_inv str st \<Longrightarrow> dedup_inv str (try_urls str lookup fetch urls st)"
  by (induction urls arbitrary: st)
     (simp_all add: Let_def dedup_inv_try_selectors split: sum.splits)

lemma distinct_scrapeA16z:
  "distinct (lower_names str (scrapeA16z str fetch lookup))"
proof -
  have "dedup_inv str (scrapeA16z_run str fetch lookup)"
    unfolding scrapeA16z_run_def
    by (rule dedup_inv_try_urls) (simp add: dedup_inv_def lower_names_def)
  then show ?thesis
    by (simp add: scrapeA16z_def dedup_inv_def)
qed

lemma dedup_inv_process_company:
  "dedup_inv str st \<Longrightarrow> dedup_inv str (process_company str lookup batch c st)"
  by (auto simp: process_company_cases dedup_inv_def)

lemma dedup_inv_fold_companies:
  "dedup_inv str st \<Longrightarrow> dedup_inv str (fold (process_company str lookup batch) cs st)"
  by (induction cs arbitrary: st) (simp_all add: dedup_inv_process_company)

lemma dedup_inv_cohort_step:
  "dedup_inv str st \<Longrightarrow> dedup_inv str (cohort_step str lookup batch response st)"
proof -
  assume a: "dedup_inv str st"
  have b: "dedup_inv str (st\<lparr>fetched := fetched st @ [page st]\<rparr>)"
    using a by (simp add: dedup_inv_def)
  have c: "dedup_inv str (fold (process_company str lookup batch) cs (st\<lparr>fetched := fetched st @ [page st]\<rparr>))" for cs
    using b by (rule dedup_inv_fold_companies)
  show ?thesis
  proof (cases response)
    case (Inl e)
    then show ?thesis using a by (simp add: cohort_step_def dedup_inv_def)
  next
    case (Inr body)
    show ?thesis
    proof (cases body)
      case (Broken handled)
      with Inr c[of handled] show ?thesis
        by (simp add: cohort_step_def dedup_inv_def Let_def)
    next
      case (Listing data)
      show ?thesis
      proof (cases "companies data = []")
        case True
        with Inr Listing a show ?thesis by (simp add: cohort_step_def dedup_inv_def)
      next
        case False
        with Inr Listing c[of "companies data"] show ?thesis
          by (simp add: cohort_step_def dedup_inv_def Let_def)
      qed
    qed
  qed
qed

lemma dedup_inv_cohort_loop:
  "dedup_inv str st \<Longrightarrow> cohort_loop str lookup batch responses st = Some (st', rest) \<Longrightarrow> dedup_inv str st'"
proof (induction responses arbitrary: st)
  case Nil
  then show ?case
    by (subst (asm) cohort_loop.simps) (simp split: if_splits)
next
  case (Cons r rs)
  from Cons.prems(2) show ?case
  proof (subst (asm) cohort_loop.simps, simp split: if_splits)
    assume "cohort_loop str lookup batch rs (cohort_step str lookup batch r st) = Some (st', rest)"
    with Cons.IH[OF dedup_inv_cohort_step[OF Cons.prems(1)]] show "dedup_inv str st'" .
  next
    assume "st = st' \<and> r # rs = rest"
    with Cons.prems(1) show "dedup_inv str st'" by simp
  qed
qed

lemma dedup_inv_scrape_batches:
  "dedup_inv str st \<Longrightarrow> scrape_batches str lookup batches responses st = Some (st', rest) \<Longrightarrow>
   dedup_inv str st'"
proof (induction batches arbitrary: st responses)
  case Nil
  then show ?case by simp
next
  case (Cons b bs)
  from Cons.prems(2) obtain st1 rest1 where
    l: "cohort_loop str lookup b responses (st\<lparr>page := 0, hasMore := True, consecutiveErrors := 0\<rparr>)
          = Some (st1, rest1)"
    and r: "scrape_batches str lookup bs rest1 st1 = Some (st', rest)"
    by (auto split: option.splits)
  have "dedup_inv str (st\<lparr>page := 0, hasMore := True, consecutiveErrors := 0\<rparr>)"
    using Cons.prems(1) by (simp add: dedup_inv_def)
  then have "dedup_inv str st1" using l by (rule dedup_inv_cohort_loop)
  then show ?case using r by (rule Cons.IH)
qed

lemma distinct_scrapeYCombinator:
  assumes "scrapeYCombinator str lookup responses = Some yc"
  shows "distinct (lower_names str yc)"
proof -
  from assms obtain st rest where
    r: "scrapeYCombinator_run str lookup responses = Some (st, rest)" and yc: "yc = startups st"
    by (auto simp: scrapeYCombinator_def)
  have "dedup_inv str st"
    using r unfolding scrapeYCombinator_run_def
    by (rule dedup_inv_scrape_batches[rotated])
       (simp add: dedup_inv_def lower_names_def yc_start_def)
  then show ?thesis by (simp add: yc dedup_inv_def)
qed


lemma fold_case_char_colon:
  "fold_case_char c = CHR '':'' \<Longrightarrow> c = CHR '':''"
  by (simp add: fold_case_char_def split: if_splits)

lemma matches_at_colon:
  assumes "CHR '':'' \<in> set pat" and "matches_at pat s"
  shows "CHR '':'' \<in> set s"
proof -
  have "fold_case_char (CHR '':'') = CHR '':''"
    by (simp add: fold_case_char_def)
  with assms(1) have "CHR '':'' \<in> set (fold_case pat)"
    by (force simp: fold_case_def)
  with assms(2) have "CHR '':'' \<in> set (fold_case (take (length pat) s))"
    by (simp add: matches_at_def)
  then obtain c where "c \<in> set (take (length pat) s)" "fold_case_char c = CHR '':''"
    by (auto simp: fold_case_def)
  then show ?thesis
    by (auto dest: fold_case_char_colon in_set_takeD)
qed

lemma remove_noise_no_colon:
  "CHR '':'' \<notin> set s \<Longrightarrow> remove_noise s = s"
proof (induction s)
  case Nil
  then show ?case by simp
next
  case (Cons c cs)
  have "\<not> matches_at ''IPO:'' (c # cs)" "\<not> matches_at ''Acquired By:'' (c # cs)"
    using Cons.prems by (auto dest!: matches_at_colon[rotated])
  with Cons show ?case by simp
qed


text \<open>
  C2, as amended. Whatever the platform's \<^verbatim>\<open>toLowerCase\<close> and \<^verbatim>\<open>trim\<close> are:
  within the output of each scraper no two records share a case-insensitive name (a name
  with the same \<^verbatim>\<open>toLowerCase()\<close>). Each of the two item loops appends to the
  records collected so far exactly the records of the accepted candidates (validated,
  lookup not failed) that \<open>keep_first\<close> keeps: of the candidates sharing a
  case-insensitive name the first encountered, unless the name was seen before, and none
  of the later ones.
\<close>

theorem scrapers_deduplicate:
  "distinct (lower_names str (scrapeA16z str fetch lookup))
   \<and> (\<forall>yc. scrapeYCombinator str lookup responses = Some yc \<longrightarrow> distinct (lower_names str yc))
   \<and> startups (fold (process_item str lookup) items st) =
       startups st @ map (a16z_startup str lookup)
         (keep_first str (item_name str) (filter (accepted_item str lookup) items) (processedNames st))
   \<and> startups (fold (process_company str lookup batch) cs st') =
       startups st' @ map (yc_startup lookup batch)
         (keep_first str listed_name (filter (accepted_company str lookup) cs) (processedNames st'))"
  using distinct_scrapeA16z [of str fetch lookup] distinct_scrapeYCombinator [of str lookup responses]
    fold_process_item [of str lookup items st] fold_process_company [of str lookup batch cs st']
  by blast


subsection \<open>Selector probing\<close>

lemma fold_process_item_none:
  "\<forall>el\<in>set items. \<not> accepted_item str lookup el \<Longrightarrow> fold (process_item str lookup) items st = st"
  by (induction items arbitrary: st) (simp_all add: process_item_skip)

lemma keep_first_nonempty:
  "xs \<noteq> [] \<Longrightarrow> keep_first str key xs {} \<noteq> []"
  by (cases xs) simp_all

lemma try_selectors_pass:
  assumes "\<forall>s\<in>set pre. \<forall>el\<in>set (doc s). \<not> accepted_item str lookup el"
    and "startups st = []"
  shows "try_selectors str lookup doc (pre @ rest) st =
         try_selectors str lookup doc rest (st\<lparr>tried := tried st @ pre\<rparr>)"
  using assms
proof (induction pre arbitrary: st)
  case Nil
  then show ?case by simp
next
  case (Cons s pre)
  have f: "fold (process_item str lookup) (doc s) (st\<lparr>tried := tried st @ [s]\<rparr>) =
      st\<lparr>tried := tried st @ [s]\<rparr>"
    using Cons.prems(1) by (intro fold_process_item_none) simp
  have n: "try_selectors str lookup doc (pre @ rest) (st\<lparr>tried := tried st @ [s]\<rparr>) =
      try_selectors str lookup doc rest (st\<lparr>tried := tried st @ s # pre\<rparr>)"
    using Cons.IH[of "st\<lparr>tried := tried st @ [s]\<rparr>"] Cons.prems by simp
  show ?case
    using Cons.prems(2) by (simp add: Let_def f n)
qed

lemma try_selectors_use:
  assumes "\<exists>el\<in>set (doc sel). accepted_item str lookup el"
    and "processedNames st = {}"
  shows "try_selectors str lookup doc (sel # post) st =
         fold (process_item str lookup) (doc sel) (st\<lparr>tried := tried st @ [sel]\<rparr>)"
proof -
  let ?st1 = "fold (process_item str lookup) (doc sel) (st\<lparr>tried := tried st @ [sel]\<rparr>)"
  from assms(1) have ne: "filter (accepted_item str lookup) (doc sel) \<noteq> []"
    by (auto simp: filter_empty_conv)
  then have "doc sel \<noteq> []" by auto
  moreover have "startups ?st1 \<noteq> []"
    using fold_process_item[of str lookup "doc sel" "st\<lparr>tried := tried st @ [sel]\<rparr>"]
      keep_first_nonempty[OF ne, of str "item_name str"] assms(2)
    by simp
  ultimately show ?thesis by (simp add: Let_def)
qed

lemma try_selectors_stop:
  assumes "\<forall>s\<in>set pre. \<forall>el\<in>set (doc s). \<not> accepted_item str lookup el"
    and "\<exists>el\<in>set (doc sel). accepted_item str lookup el"
  shows "try_selectors str lookup doc (pre @ sel # post) \<lparr>startups = [], processedNames = {}, tried = []\<rparr> =
           fold (process_item str lookup) (doc sel) \<lparr>startups = [], processedNames = {}, tried = pre @ [sel]\<rparr>
    \<and> tried (try_selectors str lookup doc (pre @ sel # post)
          \<lparr>startups = [], processedNames = {}, tried = []\<rparr>) = pre @ [sel]
    \<and> startups (try_selectors str lookup doc (pre @ sel # post)
          \<lparr>startups = [], processedNames = {}, tried = []\<rparr>) =
        map (a16z_startup str lookup) (keep_first str (item_name str) (filter (accepted_item str lookup) (doc sel)) {})
    \<and> (fetch ''https://a16z.com/portfolio/'' = Inr doc \<and> A16Z_SELECTORS = pre @ sel # post \<longrightarrow>
         tried (scrapeA16z_run str fetch lookup) = pre @ [sel]
         \<and> scrapeA16z str fetch lookup =
             map (a16z_startup str lookup)
               (keep_first str (item_name str) (filter (accepted_item str lookup) (doc sel)) {}))"
proof -
  let ?init = "\<lparr>startups = [], processedNames = {}, tried = []\<rparr>"
  let ?used = "fold (process_item str lookup) (doc sel) \<lparr>startups = [], processedNames = {}, tried = pre @ [sel]\<rparr>"
  have a: "try_selectors str lookup doc (pre @ sel # post) ?init = ?used"
    using try_selectors_pass[of pre doc str lookup ?init "sel # post"] assms(1)
      try_selectors_use[of doc sel str lookup "\<lparr>startups = [], processedNames = {}, tried = pre\<rparr>" post]
      assms(2)
    by simp
  have b: "tried ?used = pre @ [sel]"
    using fold_process_item[of str lookup "doc sel" "\<lparr>startups = [], processedNames = {}, tried = pre @ [sel]\<rparr>"]
    by simp
  have c: "startups ?used =
      map (a16z_startup str lookup) (keep_first str (item_name str) (filter (accepted_item str lookup) (doc sel)) {})"
    using fold_process_item[of str lookup "doc sel" "\<lparr>startups = [], processedNames = {}, tried = pre @ [sel]\<rparr>"]
    by simp
  from assms(2) have ne: "filter (accepted_item str lookup) (doc sel) \<noteq> []"
    by (auto simp: filter_empty_conv)
  have d: "startups ?used \<noteq> []"
    using keep_first_nonempty[OF ne, of str "item_name str"] by (simp add: c)
  have e: "scrapeA16z_run str fetch lookup = ?used"
    if "fetch ''https://a16z.com/portfolio/'' = Inr doc" "A16Z_SELECTORS = pre @ sel # post"
    using that a d by (simp add: scrapeA16z_run_def A16Z_URLS_def)
  show ?thesis
    using a b c e by (simp add: scrapeA16z_def)
qed

text \<open>
  C4, as amended. The selectors are tried in order, and a selector ends the search only
  when its matched elements yield at least one accepted record: if no element matched
  by the selectors \<open>pre\<close> is accepted and some element matched by \<open>sel\<close> is, then
  exactly \<open>pre\<close> and \<open>sel\<close> are tried, none of the selectors \<open>post\<close> after
  \<open>sel\<close> is, and the records returned are those of the elements that \<open>sel\<close>
  matches. This holds for any selector list, and for the scraper with its own list.
\<close>

theorem try_selectors_first_fruitful:
  assumes "\<forall>s\<in>set pre. \<forall>el\<in>set (doc s). \<not> accepted_item str lookup el"
    and "\<exists>el\<in>set (doc sel). accepted_item str lookup el"
  shows "try_selectors str lookup doc (pre @ sel # post) \<lparr>startups = [], processedNames = {}, tried = []\<rparr> =
           fold (process_item str lookup) (doc sel) \<lparr>startups = [], processedNames = {}, tried = pre @ [sel]\<rparr>
    \<and> tried (try_selectors str lookup doc (pre @ sel # post)
          \<lparr>startups = [], processedNames = {}, tried = []\<rparr>) = pre @ [sel]
    \<and> startups (try_selectors str lookup doc (pre @ sel # post)
          \<lparr>startups = [], processedNames = {}, tried = []\<rparr>) =
        map (a16z_startup str lookup) (keep_first str (item_name str) (filter (accepted_item str lookup) (doc sel)) {})
    \<and> (fetch ''https://a16z.com/portfolio/'' = Inr doc \<and> A16Z_SELECTORS = pre @ sel # post \<longrightarrow>
         tried (scrapeA16z_run str fetch lookup) = pre @ [sel]
         \<and> scrapeA16z str fetch lookup =
             map (a16z_startup str lookup)
               (keep_first str (item_name str) (filter (accepted_item str lookup) (doc sel)) {}))"
  using try_selectors_stop [OF assms, of post fetch] by blast


subsection \<open>The cohort loop\<close>

text \<open>
  An iteration ends in the page-level \<^verbatim>\<open>catch\<close> when the request failed or the body
  is broken. \<open>trailing_failures\<close> counts such outcomes at the end of a list.
\<close>

fun page_failed :: "js_error + page_body \<Rightarrow> bool" where
  "page_failed (Inl error) = True"
| "page_failed (Inr (Broken handled)) = True"
| "page_failed (Inr (Listing data)) = False"

definition trailing_failures :: "(js_error + page_body) list \<Rightarrow> nat" where
  "trailing_failures xs = length (takeWhile page_failed (rev xs))"

lemma cohort_loop_exit:
  "\<not> (hasMore st \<and> consecutiveErrors st < MAX_CONSECUTIVE_ERRORS) \<Longrightarrow>
   cohort_loop str lookup batch responses st = Some (st, responses)"
  by (subst cohort_loop.simps) auto

lemma cohort_loop_step:
  "hasMore st \<Longrightarrow> consecutiveErrors st < MAX_CONSECUTIVE_ERRORS \<Longrightarrow>
   cohort_loop str lookup batch (response # rest) st =
     cohort_loop str lookup batch rest (cohort_step str lookup batch response st)"
  by (subst cohort_loop.simps) simp

lemma cohort_loop_starved:
  "hasMore st \<Longrightarrow> consecutiveErrors st < MAX_CONSECUTIVE_ERRORS \<Longrightarrow>
   cohort_loop str lookup batch [] st = None"
  by (subst cohort_loop.simps) simp

lemma cohort_step_error:
  "cohort_step str lookup batch (Inl e) st =
     st\<lparr>fetched := fetched st @ [page st], consecutiveErrors := consecutiveErrors st + 1\<rparr>"
  by (simp add: cohort_step_def)

lemma cohort_step_empty:
  "companies data = [] \<Longrightarrow>
   cohort_step str lookup batch (Inr (Listing data)) st =
     st\<lparr>fetched := fetched st @ [page st], hasMore := False\<rparr>"
  by (simp add: cohort_step_def)

lemma cohort_step_page:
  assumes "companies data \<noteq> []"
  shows "startups (cohort_step str lookup batch (Inr (Listing data)) st) =
       startups st @ map (yc_startup lookup batch)
         (keep_first str listed_name (filter (accepted_company str lookup) (companies data))
            (processedNames st))"
    and "processedNames (cohort_step str lookup batch (Inr (Listing data)) st) =
       processedNames st \<union> (toLowerCase str \<circ> listed_name) `
         set (keep_first str listed_name (filter (accepted_company str lookup) (companies data))
            (processedNames st))"
    and "consecutiveErrors (cohort_step str lookup batch (Inr (Listing data)) st) = 0"
    and "page (cohort_step str lookup batch (Inr (Listing data)) st) = page st + 1"
    and "hasMore (cohort_step str lookup batch (Inr (Listing data)) st) = next_page data"
    and "fetched (cohort_step str lookup batch (Inr (Listing data)) st) = fetched st @ [page st]"
  using assms
    fold_process_company[of str lookup batch "companies data" "st\<lparr>fetched := fetched st @ [page st]\<rparr>"]
    fold_process_company_control[of str lookup batch "companies data" "st\<lparr>fetched := fetched st @ [page st]\<rparr>"]
  by (simp_all add: cohort_step_def Let_def)

lemma cohort_loop_empty_page:
  assumes "hasMore st" and "consecutiveErrors st < MAX_CONSECUTIVE_ERRORS"
    and "companies data = []"
  shows "cohort_loop str lookup batch (Inr (Listing data) # rest) st =
         Some (st\<lparr>fetched := fetched st @ [page st], hasMore := False\<rparr>, rest)"
  using assms
  by (simp add: cohort_loop_step cohort_step_empty cohort_loop_exit)



lemma cohort_step_broken:
  "cohort_step str lookup batch (Inr (Broken handled)) st =
     (fold (process_company str lookup batch) handled (st\<lparr>fetched := fetched st @ [page st]\<rparr>))
       \<lparr>consecutiveErrors :=
          consecutiveErrors
            (fold (process_company str lookup batch) handled
               (st\<lparr>fetched := fetched st @ [page st]\<rparr>)) + 1\<rparr>"
  by (simp add: cohort_step_def Let_def)

lemma process_company_quiet:
  "\<not> isl (lookup (listed_name c)) \<Longrightarrow>
   consecutiveErrors (process_company str lookup batch c st) = consecutiveErrors st"
  by (simp add: process_company_cases)

lemma fold_process_company_quiet:
  "\<forall>nm. \<not> isl (lookup nm) \<Longrightarrow>
   consecutiveErrors (fold (process_company str lookup batch) cs st) = consecutiveErrors st"
  by (induction cs arbitrary: st) (simp_all add: process_company_quiet)

lemma trailing_failures_Nil [simp]: "trailing_failures [] = 0"
  by (simp add: trailing_failures_def)

lemma trailing_failures_snoc [simp]:
  "trailing_failures (xs @ [r]) = (if page_failed r then Suc (trailing_failures xs) else 0)"
  by (simp add: trailing_failures_def)

lemma cohort_loop_abandon:
  assumes "cohort_loop str lookup batch responses st = Some (st', rest)"
    and "consecutiveErrors st = trailing_failures hist"
    and "\<forall>nm. \<not> isl (lookup nm)"
  shows "\<exists>consumed. responses = consumed @ rest
      \<and> (MAX_CONSECUTIVE_ERRORS \<le> consecutiveErrors st' \<longrightarrow>
           trailing_failures (hist @ consumed) = consecutiveErrors st')"
  using assms(1,2)
proof (induction responses arbitrary: st hist)
  case Nil
  then have "st' = st \<and> rest = []"
    by (subst (asm) cohort_loop.simps) (auto split: if_splits)
  with Nil.prems(2) show ?case by simp
next
  case (Cons r rs)
  show ?case
  proof (cases "hasMore st \<and> consecutiveErrors st < MAX_CONSECUTIVE_ERRORS")
    case False
    with Cons.prems(1) have "st' = st" "rest = r # rs" by (simp_all add: cohort_loop_exit)
    with Cons.prems(2) show ?thesis by simp
  next
    case True
    let ?st1 = "cohort_step str lookup batch r st"
    from True Cons.prems(1) have l: "cohort_loop str lookup batch rs ?st1 = Some (st', rest)"
      by (simp add: cohort_loop_step)
    show ?thesis
    proof (cases r)
      case (Inl e)
      have "consecutiveErrors ?st1 = trailing_failures (hist @ [r])"
        using Cons.prems(2) Inl by (simp add: cohort_step_error)
      from Cons.IH[OF l this] show ?thesis by auto
    next
      case (Inr body)
      show ?thesis
      proof (cases body)
        case (Broken handled)
        have "consecutiveErrors ?st1 = trailing_failures (hist @ [r])"
          using Cons.prems(2) Inr Broken assms(3)
          by (simp add: cohort_step_broken fold_process_company_quiet)
        from Cons.IH[OF l this] show ?thesis by auto
      next
        case (Listing data)
        show ?thesis
        proof (cases "companies data = []")
          case True
          have "\<not> hasMore ?st1" using Inr Listing True by (simp add: cohort_step_empty)
          with l have e: "st' = ?st1" "rest = rs" by (simp_all add: cohort_loop_exit)
          have "consecutiveErrors st' < MAX_CONSECUTIVE_ERRORS"
            using \<open>hasMore st \<and> consecutiveErrors st < MAX_CONSECUTIVE_ERRORS\<close> Inr Listing True
            by (simp add: e cohort_step_empty)
          then show ?thesis using e by auto
        next
          case False
          have "consecutiveErrors ?st1 = trailing_failures (hist @ [r])"
            using Inr Listing cohort_step_page(3)[OF False] by simp
          from Cons.IH[OF l this] show ?thesis by auto
        qed
      qed
    qed
  qed
qed

lemma keep_first_append:
  "keep_first str key (xs @ ys) seen =
     keep_first str key xs seen @
     keep_first str key ys (seen \<union> (toLowerCase str \<circ> key) ` set (keep_first str key xs seen))"
  by (induction xs arbitrary: seen) simp_all


lemma scrapeYCombinator_run_loop:
  "scrapeYCombinator_run str lookup responses = cohort_loop str lookup ''W24'' responses yc_start"
  by (simp add: scrapeYCombinator_run_def YC_BATCHES_def yc_start_def split: option.splits)

lemma yc_start_fields [simp]:
  "startups yc_start = []" "processedNames yc_start = {}" "page yc_start = 0"
  "hasMore yc_start" "consecutiveErrors yc_start = 0" "fetched yc_start = []"
  by (simp_all add: yc_start_def)

lemma MAX_pos [simp]: "0 < MAX_CONSECUTIVE_ERRORS"
  by (simp add: MAX_CONSECUTIVE_ERRORS_def)

lemma run_last_page:
  assumes "companies p \<noteq> []" and "\<not> next_page p"
  shows "scrapeYCombinator_run str lookup (Inr (Listing p) # rest) =
         Some (cohort_step str lookup ''W24'' (Inr (Listing p)) yc_start, rest)"
  using assms
  by (simp add: scrapeYCombinator_run_loop cohort_loop_step cohort_loop_exit cohort_step_page)

lemma run_three_pages:
  assumes "companies p1 \<noteq> []" "next_page p1" "companies p2 \<noteq> []" "next_page p2"
    "companies p3 = []"
  shows "\<exists>st. scrapeYCombinator_run str lookup (Inr (Listing p1) # Inr (Listing p2) # Inr (Listing p3) # rest) = Some (st, rest)
     \<and> startups st = map (yc_startup lookup ''W24'')
         (keep_first str listed_name (filter (accepted_company str lookup) (companies p1 @ companies p2)) {})
     \<and> fetched st = [0, 1, 2] \<and> consecutiveErrors st = 0 \<and> \<not> hasMore st"
proof -
  let ?st1 = "cohort_step str lookup ''W24'' (Inr (Listing p1)) yc_start"
  let ?st2 = "cohort_step str lookup ''W24'' (Inr (Listing p2)) ?st1"
  let ?st3 = "?st2\<lparr>fetched := fetched ?st2 @ [page ?st2], hasMore := False\<rparr>"
  note s1 = cohort_step_page[OF assms(1), of str lookup "''W24''" yc_start]
  note s2 = cohort_step_page[OF assms(3), of str lookup "''W24''" ?st1]
  have l1: "cohort_loop str lookup ''W24'' (Inr (Listing p1) # Inr (Listing p2) # Inr (Listing p3) # rest) yc_start =
      cohort_loop str lookup ''W24'' (Inr (Listing p2) # Inr (Listing p3) # rest) ?st1"
    by (simp add: cohort_loop_step)
  have l2: "cohort_loop str lookup ''W24'' (Inr (Listing p2) # Inr (Listing p3) # rest) ?st1 =
      cohort_loop str lookup ''W24'' (Inr (Listing p3) # rest) ?st2"
    using assms(2) by (simp add: cohort_loop_step s1)
  have l3: "cohort_loop str lookup ''W24'' (Inr (Listing p3) # rest) ?st2 = Some (?st3, rest)"
    using assms(4,5) by (intro cohort_loop_empty_page) (simp_all add: s2)
  have r: "scrapeYCombinator_run str lookup (Inr (Listing p1) # Inr (Listing p2) # Inr (Listing p3) # rest) = Some (?st3, rest)"
    by (simp only: scrapeYCombinator_run_loop l1 l2 l3)
  have st: "startups ?st3 = map (yc_startup lookup ''W24'')
         (keep_first str listed_name (filter (accepted_company str lookup) (companies p1 @ companies p2)) {})"
    by (simp add: s1 s2 keep_first_append)
  have f: "fetched ?st3 = [0, 1, 2]"
    by (simp add: s1 s2)
  have c: "consecutiveErrors ?st3 = 0" "\<not> hasMore ?st3"
    by (simp_all add: s2)
  from r st f c show ?thesis by blast
qed


lemma takeWhile_Suc_length:
  "Suc n \<le> length (takeWhile P zs) \<Longrightarrow>
   \<exists>a zs'. zs = a # zs' \<and> P a \<and> n \<le> length (takeWhile P zs')"
  by (cases zs) (auto split: if_splits)

lemma trailing_failures_three:
  assumes "3 \<le> trailing_failures xs"
  shows "\<exists>pre r1 r2 r3. xs = pre @ [r1, r2, r3]
     \<and> page_failed r1 \<and> page_failed r2 \<and> page_failed r3"
proof -
  from assms have "Suc (Suc (Suc 0)) \<le> length (takeWhile page_failed (rev xs))"
    by (simp add: trailing_failures_def numeral_3_eq_3)
  from takeWhile_Suc_length[OF this] obtain a zs1 where
    a: "rev xs = a # zs1" "page_failed a" "Suc (Suc 0) \<le> length (takeWhile page_failed zs1)"
    by blast
  from takeWhile_Suc_length[OF a(3)] obtain b zs2 where
    b: "zs1 = b # zs2" "page_failed b" "Suc 0 \<le> length (takeWhile page_failed zs2)" by blast
  from takeWhile_Suc_length[OF b(3)] obtain c ys where
    c: "zs2 = c # ys" "page_failed c" by blast
  have "rev (rev xs) = rev (a # b # c # ys)"
    using a(1) b(1) c(1) by simp
  then have "xs = rev ys @ [c, b, a]"
    by simp
  with a(2) b(2) c(2) show ?thesis by blast
qed

lemma set_keep_first: "set (keep_first str key xs seen) \<subseteq> set xs"
  by (induction xs arbitrary: seen) auto

lemma scrapeYCombinator_last_page:
  assumes "companies p \<noteq> []" and "\<not> next_page p"
  shows "scrapeYCombinator str lookup (Inr (Listing p) # rest) =
     Some (map (yc_startup lookup ''W24'')
       (keep_first str listed_name (filter (accepted_company str lookup) (companies p)) {}))"
  using assms cohort_step_page(1)[OF assms(1), of str lookup "''W24''" yc_start]
  by (simp add: scrapeYCombinator_def run_last_page)


text \<open>
  C5, as amended. An empty company list sets \<open>hasMore\<close> to false and ends the loop
  with the error counter and the records untouched. Given three pages of which the first
  two hold companies and carry a truthy pagination indicator and the third is empty, the
  scraper requests pages 0, 1 and 2, consumes nothing after the empty page, and returns
  the valid unique companies of the first two pages.
\<close>

theorem cohort_loop_empty_page_ends:
  "(hasMore st \<and> consecutiveErrors st < MAX_CONSECUTIVE_ERRORS \<and> companies data = [] \<longrightarrow>
      cohort_loop str lookup batch (Inr (Listing data) # rest) st =
        Some (st\<lparr>fetched := fetched st @ [page st], hasMore := False\<rparr>, rest))
   \<and> (companies p1 \<noteq> [] \<and> next_page p1 \<and> companies p2 \<noteq> [] \<and> next_page p2
       \<and> companies p3 = [] \<longrightarrow>
      scrapeYCombinator str lookup (Inr (Listing p1) # Inr (Listing p2) # Inr (Listing p3) # rest) =
        Some (map (yc_startup lookup ''W24'')
          (keep_first str listed_name
             (filter (accepted_company str lookup) (companies p1 @ companies p2)) {}))
      \<and> map_option (\<lambda>(st, rest). (fetched st, consecutiveErrors st, rest))
           (scrapeYCombinator_run str lookup (Inr (Listing p1) # Inr (Listing p2) # Inr (Listing p3) # rest)) =
         Some ([0, 1, 2], 0, rest))"
proof -
  have "scrapeYCombinator str lookup (Inr (Listing p1) # Inr (Listing p2) # Inr (Listing p3) # rest) =
        Some (map (yc_startup lookup ''W24'')
          (keep_first str listed_name
             (filter (accepted_company str lookup) (companies p1 @ companies p2)) {}))
      \<and> map_option (\<lambda>(st, rest). (fetched st, consecutiveErrors st, rest))
           (scrapeYCombinator_run str lookup (Inr (Listing p1) # Inr (Listing p2) # Inr (Listing p3) # rest)) =
         Some ([0, 1, 2], 0, rest)"
    if "companies p1 \<noteq> []" "next_page p1" "companies p2 \<noteq> []" "next_page p2" "companies p3 = []"
  proof -
    from run_three_pages[OF that, of str lookup rest] obtain st where
      "scrapeYCombinator_run str lookup (Inr (Listing p1) # Inr (Listing p2) # Inr (Listing p3) # rest) = Some (st, rest)"
      "startups st = map (yc_startup lookup ''W24'')
         (keep_first str listed_name (filter (accepted_company str lookup) (companies p1 @ companies p2)) {})"
      "fetched st = [0, 1, 2]" "consecutiveErrors st = 0"
      by blast
    then show ?thesis by (simp add: scrapeYCombinator_def)
  qed
  then show ?thesis
    using cohort_loop_empty_page[of st "data" str lookup batch rest] by blast
qed


text \<open>
  C10, as amended. A fetched page that lists companies and whose processing runs to
  its end leaves the error counter at 0, whatever the company lookups did, failures
  caught by the inner \<^verbatim>\<open>try\<close> included. An empty page leaves the counter as it is,
  and a broken page raises it. With a lookup that never rejects, as
  \<^verbatim>\<open>getLinkedInUrl\<close> is written, a loop that started with the counter at 0 and ends
  with it at three made, as its last three requests, three that ended in the page-level
  \<^verbatim>\<open>catch\<close>: failed requests or broken pages.
\<close>

theorem consecutiveErrors_reset:
  "(companies data \<noteq> [] \<longrightarrow>
      consecutiveErrors (cohort_step str lookup batch (Inr (Listing data)) st) = 0)
   \<and> (companies data = [] \<longrightarrow>
      consecutiveErrors (cohort_step str lookup batch (Inr (Listing data)) st) =
        consecutiveErrors st
      \<and> \<not> hasMore (cohort_step str lookup batch (Inr (Listing data)) st))
   \<and> ((\<forall>nm. \<not> isl (lookup nm)) \<longrightarrow>
      consecutiveErrors (cohort_step str lookup batch (Inr (Broken handled)) st) =
        consecutiveErrors st + 1)
   \<and> ((\<forall>nm. \<not> isl (lookup nm)) \<and> consecutiveErrors st = 0
       \<and> cohort_loop str lookup batch responses st = Some (st', rest)
       \<and> MAX_CONSECUTIVE_ERRORS \<le> consecutiveErrors st' \<longrightarrow>
      (\<exists>pre r1 r2 r3. responses = pre @ r1 # r2 # r3 # rest
         \<and> page_failed r1 \<and> page_failed r2 \<and> page_failed r3))"
proof -
  have "\<exists>pre r1 r2 r3. responses = pre @ r1 # r2 # r3 # rest
         \<and> page_failed r1 \<and> page_failed r2 \<and> page_failed r3"
    if q: "\<forall>nm. \<not> isl (lookup nm)"
      and a: "consecutiveErrors st = 0" "cohort_loop str lookup batch responses st = Some (st', rest)"
      "MAX_CONSECUTIVE_ERRORS \<le> consecutiveErrors st'"
  proof -
    from cohort_loop_abandon[OF a(2) _ q, of "[]"] a(1,3) obtain consumed where
      c: "responses = consumed @ rest" "trailing_failures consumed = consecutiveErrors st'"
      by auto
    with a(3) have "3 \<le> trailing_failures consumed"
      by (simp add: MAX_CONSECUTIVE_ERRORS_def)
    from trailing_failures_three[OF this] c(1) show ?thesis by auto
  qed
  moreover have "consecutiveErrors (cohort_step str lookup batch (Inr (Broken handled)) st) =
        consecutiveErrors st + 1" if "\<forall>nm. \<not> isl (lookup nm)"
    using that by (simp add: cohort_step_broken fold_process_company_quiet)
  ultimately show ?thesis
    using cohort_step_page(3)[of data str lookup batch st]
    by (auto simp: cohort_step_empty)
qed


subsection \<open>Concrete inputs\<close>

text \<open>
  A portfolio page with one element, \<^verbatim>\<open><div class="company-grid-item"
  data-name="Acme">\<close>, which the first selector and \<^verbatim>\<open>[data-name]\<close> match; a
  lookup whose search always fails, so that \<^verbatim>\<open>getLinkedInUrl\<close> returns the empty
  string; and a directory with one page of one company.
\<close>

definition demo_doc :: "string \<Rightarrow> element list" where
  "demo_doc selector =
     (if selector = ''.company-grid-item'' \<or> selector = ''[data-name]''
      then [\<lparr>data_name = Some ''Acme'', builder_title = [], heading = []\<rparr>]
      else [])"

definition demo_fetch :: "string \<Rightarrow> js_error + (string \<Rightarrow> element list)" where
  "demo_fetch url = Inr demo_doc"

definition demo_lookup :: "string \<Rightarrow> js_error + string" where
  "demo_lookup nm = Inr (getLinkedInUrl (\<lambda>x. Inl (OtherError ''offline'')) nm)"

definition demo_responses :: "(js_error + page_body) list" where
  "demo_responses =
     [Inr (Listing \<lparr>companies = [\<lparr>company_name = Some ''acme'', company_website = None\<rparr>],
                    next_page = False\<rparr>)]"

text \<open>Candidates with case-insensitive duplicates, for each of the two item loops.\<close>

definition dup_items :: "element list" where
  "dup_items =
     [\<lparr>data_name = Some ''Acme'', builder_title = [], heading = []\<rparr>,
      \<lparr>data_name = None, builder_title = '' ACME '', heading = []\<rparr>,
      \<lparr>data_name = None, builder_title = [], heading = ''IPO: Beta''\<rparr>]"

definition dup_companies :: "company list" where
  "dup_companies =
     [\<lparr>company_name = Some ''Acme'', company_website = Some ''https://acme.example''\<rparr>,
      \<lparr>company_name = Some ''ACME'', company_website = None\<rparr>,
      \<lparr>company_name = Some ''Beta'', company_website = None\<rparr>]"

lemma trim_latin1:
  "trim latin1 s = rev (dropWhile latin1_space (rev (dropWhile latin1_space s)))"
  by (simp add: latin1_def)

lemma lower_evals:
  "toLowerCase latin1 ''Acme'' = ''acme''" "toLowerCase latin1 ''ACME'' = ''acme''"
  "toLowerCase latin1 ''Beta'' = ''beta''" "toLowerCase latin1 ''acme'' = ''acme''"
  "toLowerCase latin1 ''beta'' = ''beta''" "toLowerCase latin1 ''Gamma'' = ''gamma''"
  by code_simp+

lemma demo_lookup_ok [simp]: "demo_lookup nm = Inr []"
  by (simp add: demo_lookup_def getLinkedInUrl_def)

lemma named_item:
  "nm \<noteq> [] \<Longrightarrow> CHR '':'' \<notin> set nm \<Longrightarrow> trim str nm = nm \<Longrightarrow>
   item_name str \<lparr>data_name = Some nm, builder_title = b, heading = h\<rparr> = nm"
  by (simp add: item_name_def element_name_def or_else_def remove_noise_no_colon)

lemma titled_item:
  "nm \<noteq> [] \<Longrightarrow> CHR '':'' \<notin> set nm \<Longrightarrow> trim str b = nm \<Longrightarrow> trim str nm = nm \<Longrightarrow>
   item_name str \<lparr>data_name = None, builder_title = b, heading = h\<rparr> = nm"
  by (simp add: item_name_def element_name_def or_else_def remove_noise_no_colon)

lemma headed_item:
  "nm \<noteq> [] \<Longrightarrow> CHR '':'' \<notin> set nm \<Longrightarrow> trim str [] = [] \<Longrightarrow> trim str nm = nm \<Longrightarrow>
   item_name str \<lparr>data_name = None, builder_title = [], heading = nm\<rparr> = nm"
  by (simp add: item_name_def element_name_def or_else_def remove_noise_no_colon)

lemma accepted_itemI:
  "element_name str el \<noteq> [] \<Longrightarrow> item_name str el = nm \<Longrightarrow> \<not> isl (lookup nm) \<Longrightarrow>
   nm \<noteq> [] \<Longrightarrow> trim str nm = nm \<Longrightarrow> 2 \<le> length nm \<Longrightarrow> accepted_item str lookup el"
  by (simp add: accepted_item_def)

lemma dup_item_names:
  "item_name latin1 \<lparr>data_name = Some ''Acme'', builder_title = [], heading = []\<rparr> = ''Acme''"
  "item_name latin1 \<lparr>data_name = None, builder_title = '' ACME '', heading = []\<rparr> = ''ACME''"
  "item_name latin1 \<lparr>data_name = None, builder_title = [], heading = ''IPO: Beta''\<rparr> = ''Beta''"
    apply (rule named_item; simp add: trim_latin1 latin1_space_def)
   apply (rule titled_item; simp add: trim_latin1 latin1_space_def)
  apply (simp add: item_name_def element_name_def or_else_def trim_latin1 latin1_space_def
      matches_at_def fold_case_def fold_case_char_def)
  done

lemma dup_item_accepted:
  "accepted_item latin1 demo_lookup \<lparr>data_name = Some ''Acme'', builder_title = [], heading = []\<rparr>"
  "accepted_item latin1 demo_lookup \<lparr>data_name = None, builder_title = '' ACME '', heading = []\<rparr>"
  "accepted_item latin1 demo_lookup \<lparr>data_name = None, builder_title = [], heading = ''IPO: Beta''\<rparr>"
  by (simp_all add: accepted_item_def dup_item_names)
     (simp_all add: element_name_def or_else_def trim_latin1 latin1_space_def)

lemma yc_names:
  "listed_name \<lparr>company_name = Some ''Acme'', company_website = Some ''https://acme.example''\<rparr> = ''Acme''"
  "listed_name \<lparr>company_name = Some ''ACME'', company_website = None\<rparr> = ''ACME''"
  "listed_name \<lparr>company_name = Some ''Beta'', company_website = None\<rparr> = ''Beta''"
  "listed_name \<lparr>company_name = Some ''acme'', company_website = None\<rparr> = ''acme''"
  "listed_name \<lparr>company_name = Some ''beta'', company_website = None\<rparr> = ''beta''"
  "listed_name \<lparr>company_name = Some ''Gamma'', company_website = None\<rparr> = ''Gamma''"
  "listed_name \<lparr>company_name = Some ''cdx'', company_website = None\<rparr> = ''cdx''"
  by (simp_all add: listed_name_def or_else_def)

lemma yc_accepted:
  "accepted_company latin1 demo_lookup \<lparr>company_name = Some ''Acme'', company_website = Some ''https://acme.example''\<rparr>"
  "accepted_company latin1 demo_lookup \<lparr>company_name = Some ''ACME'', company_website = None\<rparr>"
  "accepted_company latin1 demo_lookup \<lparr>company_name = Some ''Beta'', company_website = None\<rparr>"
  "accepted_company latin1 demo_lookup \<lparr>company_name = Some ''acme'', company_website = None\<rparr>"
  "accepted_company latin1 demo_lookup \<lparr>company_name = Some ''beta'', company_website = None\<rparr>"
  "accepted_company latin1 demo_lookup \<lparr>company_name = Some ''Gamma'', company_website = None\<rparr>"
  "accepted_company latin1 demo_lookup \<lparr>company_name = Some ''cdx'', company_website = None\<rparr>"
  by (simp_all add: accepted_company_def yc_names trim_latin1 latin1_space_def)

lemma demo_a16z:
  "scrapeA16z latin1 demo_fetch demo_lookup =
     [\<lparr>name = Some ''Acme'', website = Some ''not found'', linkedin_url = Some [],
       source = Some ''a16z''\<rparr>]"
proof -
  let ?sel = "''.company-grid-item''"
  let ?post = "[''.builder'', ''[data-v-7c2c5638].builder'', ''[data-filter-by]'', ''[data-name]'',
      ''.portfolio-company'', ''.portfolio-grid > div'']"
  have d: "demo_doc ?sel = [\<lparr>data_name = Some ''Acme'', builder_title = [], heading = []\<rparr>]"
    by (simp add: demo_doc_def)
  have h1: "\<forall>s\<in>set []. \<forall>el\<in>set (demo_doc s). \<not> accepted_item latin1 demo_lookup el"
    by simp
  have h2: "\<exists>el\<in>set (demo_doc ?sel). accepted_item latin1 demo_lookup el"
    by (simp add: d dup_item_accepted)
  have h3: "demo_fetch ''https://a16z.com/portfolio/'' = Inr demo_doc
      \<and> A16Z_SELECTORS = [] @ ?sel # ?post"
    by (simp add: A16Z_SELECTORS_def demo_fetch_def)
  have "scrapeA16z latin1 demo_fetch demo_lookup =
       map (a16z_startup latin1 demo_lookup)
         (keep_first latin1 (item_name latin1)
            (filter (accepted_item latin1 demo_lookup) (demo_doc ?sel)) {})"
    by (rule try_selectors_stop [OF h1 h2, of ?post demo_fetch, THEN conjunct2, THEN conjunct2,
          THEN conjunct2, THEN mp, OF h3, THEN conjunct2])
  then show ?thesis
    by (simp add: d dup_item_accepted dup_item_names a16z_startup_def)
qed

lemma demo_yc:
  "scrapeYCombinator latin1 demo_lookup demo_responses =
     Some [\<lparr>name = Some ''acme'', website = Some ''not found'',
            linkedin_url = Some ''not found'', source = Some ''YC W24''\<rparr>]"
proof -
  have "scrapeYCombinator latin1 demo_lookup demo_responses =
     Some (map (yc_startup demo_lookup ''W24'')
       (keep_first latin1 listed_name (filter (accepted_company latin1 demo_lookup)
          [\<lparr>company_name = Some ''acme'', company_website = None\<rparr>]) {}))"
    unfolding demo_responses_def
    using scrapeYCombinator_last_page[of
        "\<lparr>companies = [\<lparr>company_name = Some ''acme'', company_website = None\<rparr>],
          next_page = False\<rparr>" latin1 demo_lookup "[]"]
    by simp
  then show ?thesis
    by (simp add: yc_accepted yc_names yc_startup_def or_else_def)
qed

lemma demo_scrape:
  "scrapeStartups latin1 demo_fetch demo_lookup demo_responses =
     Some [\<lparr>name = Some ''Acme'', website = Some ''not found'', linkedin_url = Some [],
            source = Some ''a16z''\<rparr>,
           \<lparr>name = Some ''acme'', website = Some ''not found'',
            linkedin_url = Some ''not found'', source = Some ''YC W24''\<rparr>]"
  by (simp add: scrapeStartups_def demo_a16z demo_yc)

text \<open>
  C2 fails for the list that \<^verbatim>\<open>scrapeStartups\<close> returns: each scraper has a
  set of seen names of its own, and the two lists are concatenated as they are. When the
  portfolio page lists \<open>Acme\<close> and the directory lists \<open>acme\<close>, the result holds
  both.
\<close>

theorem scrapeStartups_duplicate_counterexample:
  "scrapeStartups latin1 demo_fetch demo_lookup demo_responses =
     Some [\<lparr>name = Some ''Acme'', website = Some ''not found'', linkedin_url = Some [],
            source = Some ''a16z''\<rparr>,
           \<lparr>name = Some ''acme'', website = Some ''not found'',
            linkedin_url = Some ''not found'', source = Some ''YC W24''\<rparr>]
   \<and> lower_names latin1 [\<lparr>name = Some ''Acme'', website = Some ''not found'', linkedin_url = Some [],
            source = Some ''a16z''\<rparr>,
           \<lparr>name = Some ''acme'', website = Some ''not found'',
            linkedin_url = Some ''not found'', source = Some ''YC W24''\<rparr>] = [''acme'', ''acme'']
   \<and> \<not> distinct (lower_names latin1
          (the (scrapeStartups latin1 demo_fetch demo_lookup demo_responses)))"
  by (simp add: demo_scrape lower_names_def or_else_def lower_evals)

text \<open>
  The theorem at the concrete inputs: \<open>Acme\<close>, \<open>ACME\<close> and \<open>Beta\<close> give
  \<open>Acme\<close> and \<open>Beta\<close>.
\<close>

theorem scrapers_deduplicate_witness:
  "distinct (lower_names latin1 (scrapeA16z latin1 demo_fetch demo_lookup))
   \<and> scrapeYCombinator latin1 demo_lookup demo_responses =
       Some [\<lparr>name = Some ''acme'', website = Some ''not found'',
              linkedin_url = Some ''not found'', source = Some ''YC W24''\<rparr>]
   \<and> distinct (lower_names latin1 [\<lparr>name = Some ''acme'', website = Some ''not found'',
              linkedin_url = Some ''not found'', source = Some ''YC W24''\<rparr>])
   \<and> startups (fold (process_item latin1 demo_lookup) dup_items
         \<lparr>startups = [], processedNames = {}, tried = []\<rparr>) =
       [\<lparr>name = Some ''Acme'', website = Some ''not found'', linkedin_url = Some [],
         source = Some ''a16z''\<rparr>,
        \<lparr>name = Some ''Beta'', website = Some ''not found'', linkedin_url = Some [],
         source = Some ''a16z''\<rparr>]
   \<and> startups (fold (process_company latin1 demo_lookup ''W24'') dup_companies
         \<lparr>startups = [], processedNames = {}, page = 0, hasMore = True,
          consecutiveErrors = 0, fetched = []\<rparr>) =
       [\<lparr>name = Some ''Acme'', website = Some ''https://acme.example'',
         linkedin_url = Some ''not found'', source = Some ''YC W24''\<rparr>,
        \<lparr>name = Some ''Beta'', website = Some ''not found'',
         linkedin_url = Some ''not found'', source = Some ''YC W24''\<rparr>]"
proof -
  note t = scrapers_deduplicate [of latin1 demo_fetch demo_lookup demo_responses dup_items
      "\<lparr>startups = [], processedNames = {}, tried = []\<rparr>" "''W24''" dup_companies
      "\<lparr>startups = [], processedNames = {}, page = 0, hasMore = True,
        consecutiveErrors = 0, fetched = []\<rparr>"]
  have a: "distinct (lower_names latin1 (scrapeA16z latin1 demo_fetch demo_lookup))"
    using t by blast
  have b: "distinct (lower_names latin1 [\<lparr>name = Some ''acme'', website = Some ''not found'',
              linkedin_url = Some ''not found'', source = Some ''YC W24''\<rparr>])"
    using t demo_yc by blast
  have c: "startups (fold (process_item latin1 demo_lookup) dup_items
         \<lparr>startups = [], processedNames = {}, tried = []\<rparr>) =
       [\<lparr>name = Some ''Acme'', website = Some ''not found'', linkedin_url = Some [],
         source = Some ''a16z''\<rparr>,
        \<lparr>name = Some ''Beta'', website = Some ''not found'', linkedin_url = Some [],
         source = Some ''a16z''\<rparr>]"
    using t [THEN conjunct2, THEN conjunct2, THEN conjunct1]
    by (simp add: dup_items_def dup_item_accepted dup_item_names lower_evals a16z_startup_def)
  have d: "startups (fold (process_company latin1 demo_lookup ''W24'') dup_companies
         \<lparr>startups = [], processedNames = {}, page = 0, hasMore = True,
          consecutiveErrors = 0, fetched = []\<rparr>) =
       [\<lparr>name = Some ''Acme'', website = Some ''https://acme.example'',
         linkedin_url = Some ''not found'', source = Some ''YC W24''\<rparr>,
        \<lparr>name = Some ''Beta'', website = Some ''not found'',
         linkedin_url = Some ''not found'', source = Some ''YC W24''\<rparr>]"
    using t [THEN conjunct2, THEN conjunct2, THEN conjunct2]
    by (simp add: dup_companies_def yc_accepted yc_names lower_evals yc_startup_def or_else_def)
  show ?thesis using a b c d demo_yc by simp
qed


text \<open>
  Two portfolio pages. On \<open>cex_doc\<close> the first selector matches five
  \<^verbatim>\<open><div class="company-grid-item">\<close> elements whose headings are one letter long, and
  \<^verbatim>\<open>.builder\<close> matches one element titled \<open>Acme\<close> (it has no
  \<^verbatim>\<open>data-v-7c2c5638\<close> attribute). On \<open>five_doc\<close> nothing has the class
  \<^verbatim>\<open>company-grid-item\<close> and five elements \<^verbatim>\<open><div class="builder"
  data-v-7c2c5638>\<close> hold a title each, so that both \<^verbatim>\<open>.builder\<close> and
  \<^verbatim>\<open>[data-v-7c2c5638].builder\<close> match them. No element of either page has one of
  the attributes \<^verbatim>\<open>data-name\<close> and \<^verbatim>\<open>data-filter-by\<close>.
\<close>

definition cex_doc :: "string \<Rightarrow> element list" where
  "cex_doc selector =
     (if selector = ''.company-grid-item'' then
        [\<lparr>data_name = None, builder_title = [], heading = ''A''\<rparr>,
         \<lparr>data_name = None, builder_title = [], heading = ''B''\<rparr>,
         \<lparr>data_name = None, builder_title = [], heading = ''C''\<rparr>,
         \<lparr>data_name = None, builder_title = [], heading = ''D''\<rparr>,
         \<lparr>data_name = None, builder_title = [], heading = ''E''\<rparr>]
      else if selector = ''.builder'' then
        [\<lparr>data_name = None, builder_title = ''Acme'', heading = []\<rparr>]
      else [])"

definition five_doc :: "string \<Rightarrow> element list" where
  "five_doc selector =
     (if selector = ''.builder'' \<or> selector = ''[data-v-7c2c5638].builder'' then
        [\<lparr>data_name = None, builder_title = ''Acme'', heading = []\<rparr>,
         \<lparr>data_name = None, builder_title = ''Beta'', heading = []\<rparr>,
         \<lparr>data_name = None, builder_title = ''Gamma'', heading = []\<rparr>,
         \<lparr>data_name = None, builder_title = ''Delta'', heading = []\<rparr>,
         \<lparr>data_name = None, builder_title = ''Omega'', heading = []\<rparr>]
      else [])"

lemma cex_rejected:
  "\<not> accepted_item latin1 demo_lookup \<lparr>data_name = None, builder_title = [], heading = ''A''\<rparr>"
  "\<not> accepted_item latin1 demo_lookup \<lparr>data_name = None, builder_title = [], heading = ''B''\<rparr>"
  "\<not> accepted_item latin1 demo_lookup \<lparr>data_name = None, builder_title = [], heading = ''C''\<rparr>"
  "\<not> accepted_item latin1 demo_lookup \<lparr>data_name = None, builder_title = [], heading = ''D''\<rparr>"
  "\<not> accepted_item latin1 demo_lookup \<lparr>data_name = None, builder_title = [], heading = ''E''\<rparr>"
  by (simp_all add: accepted_item_def item_name_def element_name_def or_else_def trim_latin1
      latin1_space_def remove_noise_no_colon validateCompany_def)

lemma five_names:
  "item_name latin1 \<lparr>data_name = None, builder_title = ''Acme'', heading = []\<rparr> = ''Acme''"
  "item_name latin1 \<lparr>data_name = None, builder_title = ''Beta'', heading = []\<rparr> = ''Beta''"
  "item_name latin1 \<lparr>data_name = None, builder_title = ''Gamma'', heading = []\<rparr> = ''Gamma''"
  "item_name latin1 \<lparr>data_name = None, builder_title = ''Delta'', heading = []\<rparr> = ''Delta''"
  "item_name latin1 \<lparr>data_name = None, builder_title = ''Omega'', heading = []\<rparr> = ''Omega''"
  by (rule titled_item; simp add: trim_latin1 latin1_space_def)+

lemma five_accepted:
  "accepted_item latin1 demo_lookup \<lparr>data_name = None, builder_title = ''Acme'', heading = []\<rparr>"
  "accepted_item latin1 demo_lookup \<lparr>data_name = None, builder_title = ''Beta'', heading = []\<rparr>"
  "accepted_item latin1 demo_lookup \<lparr>data_name = None, builder_title = ''Gamma'', heading = []\<rparr>"
  "accepted_item latin1 demo_lookup \<lparr>data_name = None, builder_title = ''Delta'', heading = []\<rparr>"
  "accepted_item latin1 demo_lookup \<lparr>data_name = None, builder_title = ''Omega'', heading = []\<rparr>"
  by (simp_all add: accepted_item_def five_names)
     (simp_all add: element_name_def or_else_def trim_latin1 latin1_space_def)

lemma five_lower:
  "toLowerCase latin1 ''Acme'' = ''acme''" "toLowerCase latin1 ''Beta'' = ''beta''"
  "toLowerCase latin1 ''Gamma'' = ''gamma''" "toLowerCase latin1 ''Delta'' = ''delta''"
  "toLowerCase latin1 ''Omega'' = ''omega''"
  by code_simp+

text \<open>
  C4 fails as stated: on \<open>cex_doc\<close> the first selector of the list matches five
  elements, and yet the second selector is tried and its element is the one returned.
\<close>

theorem try_selectors_counterexample:
  "length (cex_doc ''.company-grid-item'') = 5
   \<and> tried (scrapeA16z_run latin1 (\<lambda>url. Inr cex_doc) demo_lookup) =
       [''.company-grid-item'', ''.builder'']
   \<and> scrapeA16z latin1 (\<lambda>url. Inr cex_doc) demo_lookup =
       [\<lparr>name = Some ''Acme'', website = Some ''not found'', linkedin_url = Some [],
         source = Some ''a16z''\<rparr>]"
proof -
  let ?pre = "[''.company-grid-item'']"
  let ?sel = "''.builder''"
  let ?post = "[''[data-v-7c2c5638].builder'', ''[data-filter-by]'', ''[data-name]'',
      ''.portfolio-company'', ''.portfolio-grid > div'']"
  have d: "cex_doc ''.company-grid-item'' =
        [\<lparr>data_name = None, builder_title = [], heading = ''A''\<rparr>,
         \<lparr>data_name = None, builder_title = [], heading = ''B''\<rparr>,
         \<lparr>data_name = None, builder_title = [], heading = ''C''\<rparr>,
         \<lparr>data_name = None, builder_title = [], heading = ''D''\<rparr>,
         \<lparr>data_name = None, builder_title = [], heading = ''E''\<rparr>]"
    "cex_doc ?sel = [\<lparr>data_name = None, builder_title = ''Acme'', heading = []\<rparr>]"
    by (simp_all add: cex_doc_def)
  have h1: "\<forall>s\<in>set ?pre. \<forall>el\<in>set (cex_doc s). \<not> accepted_item latin1 demo_lookup el"
    by (simp add: d cex_rejected)
  have h2: "\<exists>el\<in>set (cex_doc ?sel). accepted_item latin1 demo_lookup el"
    by (simp add: d five_accepted)
  have h3: "(\<lambda>url. Inr cex_doc) ''https://a16z.com/portfolio/'' = Inr cex_doc
      \<and> A16Z_SELECTORS = ?pre @ ?sel # ?post"
    by (simp add: A16Z_SELECTORS_def)
  note r = try_selectors_stop [OF h1 h2, of ?post "\<lambda>url. Inr cex_doc", THEN conjunct2,
      THEN conjunct2, THEN conjunct2, THEN mp, OF h3]
  have t: "tried (scrapeA16z_run latin1 (\<lambda>url. Inr cex_doc) demo_lookup) = ?pre @ [?sel]"
    by (rule r [THEN conjunct1])
  have n: "scrapeA16z latin1 (\<lambda>url. Inr cex_doc) demo_lookup =
       [\<lparr>name = Some ''Acme'', website = Some ''not found'', linkedin_url = Some [],
         source = Some ''a16z''\<rparr>]"
    unfolding r [THEN conjunct2] d(2)
    by (simp add: five_accepted five_names a16z_startup_def)
  show ?thesis using t n by (simp add: d(1))
qed

text \<open>
  The theorem on \<open>five_doc\<close>. With the selector list of the scraper the first selector
  matches nothing and the second matches five valid elements: two selectors are tried,
  the five are returned, and the third selector, which matches the same five, is not
  tried. With a list whose first two selectors match nothing and whose third matches the
  five, three selectors are tried and the five are returned.
\<close>

theorem try_selectors_first_fruitful_witness:
  "five_doc ''.company-grid-item'' = [] \<and> length (five_doc ''.builder'') = 5
   \<and> length (five_doc ''[data-v-7c2c5638].builder'') = 5
   \<and> tried (scrapeA16z_run latin1 (\<lambda>url. Inr five_doc) demo_lookup) =
       [''.company-grid-item'', ''.builder'']
   \<and> map name (scrapeA16z latin1 (\<lambda>url. Inr five_doc) demo_lookup) =
       [Some ''Acme'', Some ''Beta'', Some ''Gamma'', Some ''Delta'', Some ''Omega'']
   \<and> five_doc ''.portfolio-company'' = [] \<and> five_doc ''[data-name]'' = []
   \<and> tried (try_selectors latin1 demo_lookup five_doc
         [''.portfolio-company'', ''[data-name]'', ''.builder'', ''[data-v-7c2c5638].builder'']
         \<lparr>startups = [], processedNames = {}, tried = []\<rparr>) =
       [''.portfolio-company'', ''[data-name]'', ''.builder'']
   \<and> map name (startups (try_selectors latin1 demo_lookup five_doc
         [''.portfolio-company'', ''[data-name]'', ''.builder'', ''[data-v-7c2c5638].builder'']
         \<lparr>startups = [], processedNames = {}, tried = []\<rparr>)) =
       [Some ''Acme'', Some ''Beta'', Some ''Gamma'', Some ''Delta'', Some ''Omega'']"
proof -
  let ?pre = "[''.company-grid-item'']"
  let ?sel = "''.builder''"
  let ?post = "[''[data-v-7c2c5638].builder'', ''[data-filter-by]'', ''[data-name]'',
      ''.portfolio-company'', ''.portfolio-grid > div'']"
  let ?pre' = "[''.portfolio-company'', ''[data-name]'']"
  let ?post' = "[''[data-v-7c2c5638].builder'']"
  let ?init = "\<lparr>startups = [], processedNames = {}, tried = []\<rparr>"
  have d: "five_doc ''.company-grid-item'' = []" "five_doc ''.portfolio-company'' = []"
    "five_doc ''[data-name]'' = []"
    "five_doc ?sel =
        [\<lparr>data_name = None, builder_title = ''Acme'', heading = []\<rparr>,
         \<lparr>data_name = None, builder_title = ''Beta'', heading = []\<rparr>,
         \<lparr>data_name = None, builder_title = ''Gamma'', heading = []\<rparr>,
         \<lparr>data_name = None, builder_title = ''Delta'', heading = []\<rparr>,
         \<lparr>data_name = None, builder_title = ''Omega'', heading = []\<rparr>]"
    "length (five_doc ''[data-v-7c2c5638].builder'') = 5"
    by (simp_all add: five_doc_def)
  have h1: "\<forall>s\<in>set ?pre. \<forall>el\<in>set (five_doc s). \<not> accepted_item latin1 demo_lookup el"
    by (simp add: d)
  have h1': "\<forall>s\<in>set ?pre'. \<forall>el\<in>set (five_doc s). \<not> accepted_item latin1 demo_lookup el"
    by (simp add: d)
  have h2: "\<exists>el\<in>set (five_doc ?sel). accepted_item latin1 demo_lookup el"
    by (simp add: d five_accepted)
  have h3: "(\<lambda>url. Inr five_doc) ''https://a16z.com/portfolio/'' = Inr five_doc
      \<and> A16Z_SELECTORS = ?pre @ ?sel # ?post"
    by (simp add: A16Z_SELECTORS_def)
  have k: "map name (map (a16z_startup latin1 demo_lookup)
         (keep_first latin1 (item_name latin1)
            (filter (accepted_item latin1 demo_lookup) (five_doc ?sel)) {})) =
       [Some ''Acme'', Some ''Beta'', Some ''Gamma'', Some ''Delta'', Some ''Omega'']"
    unfolding d(4)
    by (simp add: five_accepted five_names five_lower a16z_startup_def)
  note r = try_selectors_first_fruitful [OF h1 h2, of ?post "\<lambda>url. Inr five_doc", THEN conjunct2,
      THEN conjunct2, THEN conjunct2, THEN mp, OF h3]
  note r' = try_selectors_first_fruitful [OF h1' h2, of ?post' "\<lambda>url. Inr five_doc",
      THEN conjunct2]
  have t: "tried (scrapeA16z_run latin1 (\<lambda>url. Inr five_doc) demo_lookup) = ?pre @ [?sel]"
    by (rule r [THEN conjunct1])
  have n: "map name (scrapeA16z latin1 (\<lambda>url. Inr five_doc) demo_lookup) =
       [Some ''Acme'', Some ''Beta'', Some ''Gamma'', Some ''Delta'', Some ''Omega'']"
    unfolding r [THEN conjunct2] by (rule k)
  have t': "tried (try_selectors latin1 demo_lookup five_doc (?pre' @ ?sel # ?post') ?init) =
      ?pre' @ [?sel]"
    by (rule r' [THEN conjunct1])
  have n': "map name (startups (try_selectors latin1 demo_lookup five_doc
      (?pre' @ ?sel # ?post') ?init)) =
       [Some ''Acme'', Some ''Beta'', Some ''Gamma'', Some ''Delta'', Some ''Omega'']"
    unfolding r' [THEN conjunct2, THEN conjunct1] by (rule k)
  show ?thesis using t n t' n' by (simp add: d)
qed


subsection \<open>Concrete directories\<close>

text \<open>
  Pages of 100 companies with pairwise different names (\<open>abx\<close>, \<open>abxx\<close>, ... and
  \<open>cdx\<close>, \<open>cdxx\<close>, ...), none of which carries a pagination indicator, an empty
  page, and two small pages that do carry one.
\<close>

definition hundred :: "string \<Rightarrow> company list" where
  "hundred prefix =
     map (\<lambda>i. \<lparr>company_name = Some (prefix @ replicate (Suc i) (CHR ''x'')),
               company_website = None\<rparr>) [0..<100]"

definition cex_page1 :: page_data where
  "cex_page1 = \<lparr>companies = hundred ''ab'', next_page = False\<rparr>"

definition cex_page2 :: page_data where
  "cex_page2 = \<lparr>companies = hundred ''cd'', next_page = False\<rparr>"

definition cex_page3 :: page_data where
  "cex_page3 = \<lparr>companies = [], next_page = False\<rparr>"

definition yc_page1 :: page_data where
  "yc_page1 = \<lparr>companies = dup_companies, next_page = True\<rparr>"

definition yc_page2 :: page_data where
  "yc_page2 =
     \<lparr>companies = [\<lparr>company_name = Some ''beta'', company_website = None\<rparr>,
                   \<lparr>company_name = Some ''Gamma'', company_website = None\<rparr>],
      next_page = True\<rparr>"

text \<open>
  Two bodies whose processing throws. \<open>null_body\<close> is the JSON value \<^verbatim>\<open>null\<close>:
  reading \<^verbatim>\<open>response.data.companies\<close> throws. \<open>torn_body\<close> is
  \<^verbatim>\<open>{"companies": [{"name": "Acme"}, null]}\<close>: the first entry is handled, and
  reading \<^verbatim>\<open>company.name\<close> of the second throws.
\<close>

definition null_body :: page_body where
  "null_body = Broken []"

definition torn_body :: page_body where
  "torn_body = Broken [\<lparr>company_name = Some ''Acme'', company_website = None\<rparr>]"


lemma kept_page12:
  "keep_first latin1 listed_name
     (filter (accepted_company latin1 demo_lookup) (companies yc_page1 @ companies yc_page2)) {} =
     [\<lparr>company_name = Some ''Acme'', company_website = Some ''https://acme.example''\<rparr>,
      \<lparr>company_name = Some ''Beta'', company_website = None\<rparr>,
      \<lparr>company_name = Some ''Gamma'', company_website = None\<rparr>]"
  by (simp add: yc_page1_def yc_page2_def dup_companies_def yc_accepted yc_names lower_evals)

lemma hundred_length: "length (hundred prefix) = 100"
  by (simp add: hundred_def)

lemma hundred_names:
  "c \<in> set (hundred prefix) \<Longrightarrow> \<exists>i. listed_name c = prefix @ replicate (Suc i) (CHR ''x'')"
  by (auto simp: hundred_def listed_name_def or_else_def)

text \<open>
  C5 fails as stated: the directory returns pages with 100, 100 and 0 companies, but the
  first response carries neither \<^verbatim>\<open>next\<close> nor \<^verbatim>\<open>nextPage\<close>. The scraper requests
  page 0 only, leaves the other two responses unconsumed, and the valid company
  \<open>cdx\<close> of the second page is not in its result.
\<close>

theorem cohort_loop_pagination_counterexample:
  "length (companies cex_page1) = 100 \<and> length (companies cex_page2) = 100
   \<and> length (companies cex_page3) = 0
   \<and> \<lparr>company_name = Some ''cdx'', company_website = None\<rparr> \<in> set (companies cex_page2)
   \<and> accepted_company latin1 demo_lookup \<lparr>company_name = Some ''cdx'', company_website = None\<rparr>
   \<and> map_option (\<lambda>(st, rest). (fetched st, rest))
        (scrapeYCombinator_run latin1 demo_lookup [Inr (Listing cex_page1), Inr (Listing cex_page2), Inr (Listing cex_page3)]) =
      Some ([0], [Inr (Listing cex_page2), Inr (Listing cex_page3)])
   \<and> scrapeYCombinator latin1 demo_lookup [Inr (Listing cex_page1), Inr (Listing cex_page2), Inr (Listing cex_page3)] \<noteq> None
   \<and> Some ''cdx'' \<notin>
       name ` set (the (scrapeYCombinator latin1 demo_lookup [Inr (Listing cex_page1), Inr (Listing cex_page2), Inr (Listing cex_page3)]))"
proof -
  have ne: "companies cex_page1 \<noteq> []" "\<not> next_page cex_page1"
    using hundred_length[of "''ab''"] by (auto simp: cex_page1_def)
  have m: "\<lparr>company_name = Some ''cdx'', company_website = None\<rparr> \<in> set (companies cex_page2)"
    by (auto simp: cex_page2_def hundred_def intro!: image_eqI[where x = 0])
  have r: "scrapeYCombinator_run latin1 demo_lookup [Inr (Listing cex_page1), Inr (Listing cex_page2), Inr (Listing cex_page3)] =
      Some (cohort_step latin1 demo_lookup ''W24'' (Inr (Listing cex_page1)) yc_start, [Inr (Listing cex_page2), Inr (Listing cex_page3)])"
    using ne by (rule run_last_page)
  have f: "fetched (cohort_step latin1 demo_lookup ''W24'' (Inr (Listing cex_page1)) yc_start) = [0]"
    using cohort_step_page(6)[OF ne(1), of latin1 demo_lookup "''W24''" yc_start] by simp
  have s: "scrapeYCombinator latin1 demo_lookup [Inr (Listing cex_page1), Inr (Listing cex_page2), Inr (Listing cex_page3)] =
     Some (map (yc_startup demo_lookup ''W24'')
       (keep_first latin1 listed_name (filter (accepted_company latin1 demo_lookup) (companies cex_page1)) {}))"
    using ne by (rule scrapeYCombinator_last_page)
  have n: "Some ''cdx'' \<notin> name ` set (map (yc_startup demo_lookup ''W24'')
       (keep_first latin1 listed_name (filter (accepted_company latin1 demo_lookup) (companies cex_page1)) {}))"
  proof
    assume "Some ''cdx'' \<in> name ` set (map (yc_startup demo_lookup ''W24'')
       (keep_first latin1 listed_name (filter (accepted_company latin1 demo_lookup) (companies cex_page1)) {}))"
    then obtain c where c: "c \<in> set (keep_first latin1 listed_name
        (filter (accepted_company latin1 demo_lookup) (companies cex_page1)) {})"
      "listed_name c = ''cdx''"
      by (auto simp: yc_startup_def)
    from c(1) set_keep_first have "c \<in> set (hundred ''ab'')"
      by (fastforce simp: cex_page1_def)
    from hundred_names[OF this] c(2) show False by auto
  qed
  show ?thesis
    using m r f s n hundred_length by (simp add: cex_page1_def cex_page2_def cex_page3_def yc_accepted)
qed

text \<open>
  An empty first page ends the loop at once; two pages with companies and an empty one
  give \<open>Acme\<close>, \<open>Beta\<close> and \<open>Gamma\<close>, and the response after the empty page
  is not consumed.
\<close>

theorem cohort_loop_empty_page_ends_witness:
  "cohort_loop latin1 demo_lookup ''W24'' [Inr (Listing cex_page3), Inr (Listing yc_page1)] yc_start =
     Some (yc_start\<lparr>fetched := [0], hasMore := False\<rparr>, [Inr (Listing yc_page1)])
   \<and> map name (the (scrapeYCombinator latin1 demo_lookup
        [Inr (Listing yc_page1), Inr (Listing yc_page2), Inr (Listing cex_page3), Inr (Listing yc_page1)])) =
      [Some ''Acme'', Some ''Beta'', Some ''Gamma'']
   \<and> map_option (\<lambda>(st, rest). (fetched st, consecutiveErrors st, rest))
        (scrapeYCombinator_run latin1 demo_lookup
           [Inr (Listing yc_page1), Inr (Listing yc_page2), Inr (Listing cex_page3), Inr (Listing yc_page1)]) =
      Some ([0, 1, 2], 0, [Inr (Listing yc_page1)])"
proof -
  note t1 = cohort_loop_empty_page_ends [of yc_start cex_page3 latin1 demo_lookup "''W24''" "[Inr (Listing yc_page1)]",
      THEN conjunct1]
  note t2 = cohort_loop_empty_page_ends [of _ _ _ _ _ "[Inr (Listing yc_page1)]" yc_page1 yc_page2 cex_page3,
      THEN conjunct2]
  have a: "cohort_loop latin1 demo_lookup ''W24'' [Inr (Listing cex_page3), Inr (Listing yc_page1)] yc_start =
     Some (yc_start\<lparr>fetched := [0], hasMore := False\<rparr>, [Inr (Listing yc_page1)])"
    using t1 by (simp add: cex_page3_def MAX_CONSECUTIVE_ERRORS_def)
  have h: "companies yc_page1 \<noteq> [] \<and> next_page yc_page1 \<and> companies yc_page2 \<noteq> []
      \<and> next_page yc_page2 \<and> companies cex_page3 = []"
    by (simp add: yc_page1_def yc_page2_def cex_page3_def dup_companies_def)
  from t2[of latin1 demo_lookup] h have
    b: "scrapeYCombinator latin1 demo_lookup [Inr (Listing yc_page1), Inr (Listing yc_page2), Inr (Listing cex_page3), Inr (Listing yc_page1)] =
        Some (map (yc_startup demo_lookup ''W24'')
          (keep_first latin1 listed_name
             (filter (accepted_company latin1 demo_lookup) (companies yc_page1 @ companies yc_page2)) {}))"
    and c: "map_option (\<lambda>(st, rest). (fetched st, consecutiveErrors st, rest))
        (scrapeYCombinator_run latin1 demo_lookup
           [Inr (Listing yc_page1), Inr (Listing yc_page2), Inr (Listing cex_page3), Inr (Listing yc_page1)]) =
      Some ([0, 1, 2], 0, [Inr (Listing yc_page1)])"
    by blast+
  have d: "map name (the (scrapeYCombinator latin1 demo_lookup
        [Inr (Listing yc_page1), Inr (Listing yc_page2), Inr (Listing cex_page3), Inr (Listing yc_page1)])) =
      [Some ''Acme'', Some ''Beta'', Some ''Gamma'']"
  proof -
    have "the (scrapeYCombinator latin1 demo_lookup
        [Inr (Listing yc_page1), Inr (Listing yc_page2), Inr (Listing cex_page3), Inr (Listing yc_page1)]) =
      map (yc_startup demo_lookup ''W24'')
        [\<lparr>company_name = Some ''Acme'', company_website = Some ''https://acme.example''\<rparr>,
         \<lparr>company_name = Some ''Beta'', company_website = None\<rparr>,
         \<lparr>company_name = Some ''Gamma'', company_website = None\<rparr>]"
      by (simp only: b option.sel kept_page12)
    then show ?thesis
      by (simp add: yc_startup_def yc_names)
  qed
  show ?thesis using a c d by simp
qed



lemma demo_lookup_quiet: "\<forall>nm. \<not> isl (demo_lookup nm)"
  by simp

lemma torn_first:
  "process_company latin1 demo_lookup ''W24''
      \<lparr>company_name = Some ''Acme'', company_website = None\<rparr> (yc_start\<lparr>fetched := [0]\<rparr>) =
   yc_start\<lparr>fetched := [0],
     startups := [\<lparr>name = Some ''Acme'', website = Some ''not found'',
                   linkedin_url = Some ''not found'', source = Some ''YC W24''\<rparr>],
     processedNames := {''acme''}\<rparr>"
  by (simp add: process_company_cases listed_name_def or_else_def lower_evals trim_latin1
      latin1_space_def yc_startup_def)

lemma torn_again:
  "''acme'' \<in> processedNames st \<Longrightarrow>
   process_company latin1 demo_lookup ''W24''
      \<lparr>company_name = Some ''Acme'', company_website = None\<rparr> st = st"
  by (simp add: process_company_cases listed_name_def or_else_def lower_evals)

text \<open>
  C10 fails as stated. A fetched page that is empty leaves by \<^verbatim>\<open>break\<close> before the
  reset: after one failed request and an empty page the loop ends with the counter at 1.
  And the cohort is abandoned with no failed request at all: three fetched bodies whose
  processing throws end the loop with the counter at three, the next page unread.
\<close>

theorem consecutiveErrors_reset_counterexample:
  "cohort_loop latin1 demo_lookup ''W24''
      [Inl (AxiosError (Some 500)), Inr (Listing cex_page3)] yc_start =
     Some (yc_start\<lparr>fetched := [0, 0], consecutiveErrors := 1, hasMore := False\<rparr>, [])
   \<and> cohort_loop latin1 demo_lookup ''W24''
      [Inr null_body, Inr null_body, Inr null_body, Inr (Listing yc_page1)] yc_start =
     Some (yc_start\<lparr>fetched := [0, 0, 0], consecutiveErrors := 3\<rparr>, [Inr (Listing yc_page1)])
   \<and> scrapeYCombinator latin1 demo_lookup
      [Inr torn_body, Inr torn_body, Inr torn_body, Inr (Listing yc_page1)] =
     Some [\<lparr>name = Some ''Acme'', website = Some ''not found'',
            linkedin_url = Some ''not found'', source = Some ''YC W24''\<rparr>]
   \<and> map_option (\<lambda>(st, rest). (fetched st, consecutiveErrors st, hasMore st, rest))
        (scrapeYCombinator_run latin1 demo_lookup
           [Inr torn_body, Inr torn_body, Inr torn_body, Inr (Listing yc_page1)]) =
      Some ([0, 0, 0], 3, True, [Inr (Listing yc_page1)])"
proof -
  have a: "cohort_loop latin1 demo_lookup ''W24''
      [Inl (AxiosError (Some 500)), Inr (Listing cex_page3)] yc_start =
     Some (yc_start\<lparr>fetched := [0, 0], consecutiveErrors := 1, hasMore := False\<rparr>, [])"
    by (simp add: cohort_loop_step cohort_step_error cohort_step_empty cohort_loop_exit
        cex_page3_def MAX_CONSECUTIVE_ERRORS_def yc_start_def)
  have b: "cohort_loop latin1 demo_lookup ''W24''
      [Inr null_body, Inr null_body, Inr null_body, Inr (Listing yc_page1)] yc_start =
     Some (yc_start\<lparr>fetched := [0, 0, 0], consecutiveErrors := 3\<rparr>, [Inr (Listing yc_page1)])"
    by (simp add: cohort_loop_step cohort_step_broken cohort_loop_exit null_body_def
        MAX_CONSECUTIVE_ERRORS_def yc_start_def)
  let ?acme = "\<lparr>name = Some ''Acme'', website = Some ''not found'',
                   linkedin_url = Some ''not found'', source = Some ''YC W24''\<rparr>"
  let ?s1 = "yc_start\<lparr>fetched := [0], startups := [?acme], processedNames := {''acme''},
      consecutiveErrors := 1\<rparr>"
  let ?s2 = "?s1\<lparr>fetched := [0, 0], consecutiveErrors := 2\<rparr>"
  let ?s3 = "?s2\<lparr>fetched := [0, 0, 0], consecutiveErrors := 3\<rparr>"
  have s1: "cohort_step latin1 demo_lookup ''W24'' (Inr torn_body) yc_start = ?s1"
    unfolding torn_body_def cohort_step_broken
    by (simp add: torn_first)
  have s2: "cohort_step latin1 demo_lookup ''W24'' (Inr torn_body) ?s1 = ?s2"
    unfolding torn_body_def cohort_step_broken
    by (simp add: torn_again)
  have s3: "cohort_step latin1 demo_lookup ''W24'' (Inr torn_body) ?s2 = ?s3"
    unfolding torn_body_def cohort_step_broken
    by (simp add: torn_again)
  have g: "hasMore yc_start" "consecutiveErrors yc_start < MAX_CONSECUTIVE_ERRORS"
    "hasMore ?s1" "consecutiveErrors ?s1 < MAX_CONSECUTIVE_ERRORS"
    "hasMore ?s2" "consecutiveErrors ?s2 < MAX_CONSECUTIVE_ERRORS"
    "\<not> (hasMore ?s3 \<and> consecutiveErrors ?s3 < MAX_CONSECUTIVE_ERRORS)"
    by (simp_all add: MAX_CONSECUTIVE_ERRORS_def)
  have c: "scrapeYCombinator_run latin1 demo_lookup
      [Inr torn_body, Inr torn_body, Inr torn_body, Inr (Listing yc_page1)] =
      Some (?s3, [Inr (Listing yc_page1)])"
    unfolding scrapeYCombinator_run_loop
    by (simp only: cohort_loop_step [OF g(1,2)] s1 cohort_loop_step [OF g(3,4)] s2
        cohort_loop_step [OF g(5,6)] s3 cohort_loop_exit [OF g(7)])
  show ?thesis
    using a b by (simp add: scrapeYCombinator_def c yc_start_def)
qed

text \<open>
  The theorem at concrete inputs, with the lookup as \<^verbatim>\<open>getLinkedInUrl\<close> is written.
  After two failed requests a page with companies puts the counter back to 0; an empty
  page leaves it at 2; a broken body raises it to 3. A loop over a page with companies, a
  broken body, a failed request and another broken body ends with the counter at three.
\<close>

theorem consecutiveErrors_reset_witness:
  "consecutiveErrors (cohort_step latin1 demo_lookup ''W24'' (Inr (Listing yc_page1))
      (yc_start\<lparr>fetched := [0, 0], consecutiveErrors := 2\<rparr>)) = 0
   \<and> consecutiveErrors (cohort_step latin1 demo_lookup ''W24'' (Inr (Listing cex_page3))
      (yc_start\<lparr>fetched := [0, 0], consecutiveErrors := 2\<rparr>)) = 2
   \<and> \<not> hasMore (cohort_step latin1 demo_lookup ''W24'' (Inr (Listing cex_page3))
      (yc_start\<lparr>fetched := [0, 0], consecutiveErrors := 2\<rparr>))
   \<and> consecutiveErrors (cohort_step latin1 demo_lookup ''W24'' (Inr torn_body)
      (yc_start\<lparr>fetched := [0, 0], consecutiveErrors := 2\<rparr>)) = 3
   \<and> map_option (\<lambda>(st, rest). (consecutiveErrors st, fetched st, rest))
        (cohort_loop latin1 demo_lookup ''W24''
           [Inr (Listing yc_page1), Inr null_body, Inl (AxiosError (Some 500)), Inr null_body,
            Inr (Listing yc_page2)] yc_start) =
      Some (3, [0, 1, 1, 1], [Inr (Listing yc_page2)])
   \<and> (\<exists>pre r1 r2 r3.
        [Inr (Listing yc_page1), Inr null_body, Inl (AxiosError (Some 500)), Inr null_body,
         Inr (Listing yc_page2)] = pre @ r1 # r2 # r3 # [Inr (Listing yc_page2)]
        \<and> page_failed r1 \<and> page_failed r2 \<and> page_failed r3)"
proof -
  let ?st = "yc_start\<lparr>fetched := [0, 0], consecutiveErrors := 2\<rparr>"
  let ?rs = "[Inr (Listing yc_page1), Inr null_body, Inl (AxiosError (Some 500)), Inr null_body,
            Inr (Listing yc_page2)]"
  let ?st1 = "cohort_step latin1 demo_lookup ''W24'' (Inr (Listing yc_page1)) yc_start"
  let ?st' = "?st1\<lparr>fetched := [0, 1, 1, 1], consecutiveErrors := 3\<rparr>"
  have ne: "companies yc_page1 \<noteq> []" "next_page yc_page1" "companies cex_page3 = []"
    by (simp_all add: yc_page1_def dup_companies_def cex_page3_def)
  note s1 = cohort_step_page[OF ne(1), of latin1 demo_lookup "''W24''" yc_start]
  have a: "consecutiveErrors (cohort_step latin1 demo_lookup ''W24'' (Inr (Listing yc_page1)) ?st) = 0"
    using consecutiveErrors_reset [of yc_page1 latin1 demo_lookup "''W24''" ?st, THEN conjunct1]
      ne(1) by simp
  have b: "consecutiveErrors (cohort_step latin1 demo_lookup ''W24'' (Inr (Listing cex_page3)) ?st) = 2
      \<and> \<not> hasMore (cohort_step latin1 demo_lookup ''W24'' (Inr (Listing cex_page3)) ?st)"
    using consecutiveErrors_reset [of cex_page3 latin1 demo_lookup "''W24''" ?st,
        THEN conjunct2, THEN conjunct1] ne(3) by (simp add: yc_start_def)
  have c: "consecutiveErrors (cohort_step latin1 demo_lookup ''W24'' (Inr torn_body) ?st) = 3"
    using consecutiveErrors_reset [of _ latin1 demo_lookup "''W24''" ?st
        "[\<lparr>company_name = Some ''Acme'', company_website = None\<rparr>]",
        THEN conjunct2, THEN conjunct2, THEN conjunct1] demo_lookup_quiet
    by (simp add: torn_body_def yc_start_def)
  have g: "hasMore yc_start" "consecutiveErrors yc_start < MAX_CONSECUTIVE_ERRORS"
    by (simp_all add: MAX_CONSECUTIVE_ERRORS_def)
  have l: "cohort_loop latin1 demo_lookup ''W24'' ?rs yc_start = Some (?st', [Inr (Listing yc_page2)])"
    unfolding cohort_loop_step [OF g]
    by (simp add: cohort_loop_step cohort_step_broken cohort_step_error cohort_loop_exit
        null_body_def s1 ne MAX_CONSECUTIVE_ERRORS_def)
  have d: "\<exists>pre r1 r2 r3. ?rs = pre @ r1 # r2 # r3 # [Inr (Listing yc_page2)]
        \<and> page_failed r1 \<and> page_failed r2 \<and> page_failed r3"
    using consecutiveErrors_reset [of _ latin1 demo_lookup "''W24''" yc_start _ ?rs ?st'
        "[Inr (Listing yc_page2)]", THEN conjunct2, THEN conjunct2, THEN conjunct2]
      demo_lookup_quiet l
    by (simp add: MAX_CONSECUTIVE_ERRORS_def)
  show ?thesis
    using a b c d by (simp add: l)
qed


section \<open>The Ingestion Endpoint\<close>

text \<open>
  A record as it is written to the table \<^verbatim>\<open>startups\<close>: \<^verbatim>\<open>name\<close>,
  \<^verbatim>\<open>website\<close>, \<^verbatim>\<open>linkedin_url\<close> and \<^verbatim>\<open>created_at\<close>.
\<close>

record row =
  row_name :: string
  row_website :: string
  row_linkedin_url :: string
  created_at :: string

text \<open>
  \<^verbatim>\<open>results.map((startup) => ({...}))\<close>: \<open>now i\<close> is
  \<^verbatim>\<open>new Date().toISOString()\<close> as read while the \<open>i\<close>-th result is mapped.
\<close>

definition startupsToInsert :: "(nat \<Rightarrow> string) \<Rightarrow> startup list \<Rightarrow> row list" where
  "startupsToInsert now results =
     map (\<lambda>(i, startup).
            \<lparr>row_name = or_else (name startup) ''Unknown'',
             row_website = or_else (website startup) ''not found'',
             row_linkedin_url = or_else (linkedin_url startup) ''not found'',
             created_at = now i\<rparr>)
         (enumerate 0 results)"

text \<open>
  The response: status 200 with \<^verbatim>\<open>{success, newCount, totalCount, message}\<close>, or
  status 500 with \<^verbatim>\<open>{error, details}\<close>, the details being taken from the error caught.
\<close>

datatype http_response =
    Json200 (success: bool) (newCount: nat) (totalCount: nat) (message: string)
  | Json500 (error_text: string) (details: js_error)

text \<open>
  \<^verbatim>\<open>GET\<close>. The storage collaborator is a parameter: \<open>upsert rows tbl\<close> is the
  outcome of \<^verbatim>\<open>supabase.from("startups").upsert(rows, {onConflict: "name",
  ignoreDuplicates: true})\<close> on the table \<open>tbl\<close>, the error it reports, if any, and the
  table afterwards; the count query returns the number of rows. \<open>scraped\<close> is the
  outcome of \<^verbatim>\<open>await scrapeStartups()\<close>. The result is the response and the table.
\<close>

definition GET ::
  "(row list \<Rightarrow> row list \<Rightarrow> js_error option \<times> row list) \<Rightarrow> (nat \<Rightarrow> string) \<Rightarrow>
   js_error + startup list \<Rightarrow> row list \<Rightarrow> http_response \<times> row list" where
  "GET upsert now scraped tbl =
     (case scraped of
        Inl error \<Rightarrow> (Json500 ''Operation failed'' error, tbl)
      | Inr results \<Rightarrow>
          (case (if length results > 0 then upsert (startupsToInsert now results) tbl
                 else (None, tbl)) of
             (Some upsertError, tbl') \<Rightarrow> (Json500 ''Operation failed'' upsertError, tbl')
           | (None, tbl') \<Rightarrow>
               (Json200 True (length results) (length tbl')
                  (if length results = 0 then ''No new startups found''
                   else ''Scrape completed successfully''),
                tbl')))"

subsection \<open>Storage\<close>

text \<open>
  Modelled from the spec: the storage collaborator (the Supabase table and its client),
  which is not part of the repository's sources. The specification describes it as a
  batch upsert keyed by \<^verbatim>\<open>name\<close> with duplicate-ignore semantics: insert-or-ignore on
  a duplicate name, conflicts within the batch ignored, first occurrence wins.
\<close>

fun upsert_ignore :: "row list \<Rightarrow> row list \<Rightarrow> row list" where
  "upsert_ignore [] tbl = tbl"
| "upsert_ignore (r # rs) tbl =
     upsert_ignore rs (if row_name r \<in> row_name ` set tbl then tbl else tbl @ [r])"

definition storage_upsert :: "row list \<Rightarrow> row list \<Rightarrow> js_error option \<times> row list" where
  "storage_upsert rows tbl = (None, upsert_ignore rows tbl)"

text \<open>
  One full ingestion over that storage: the external data are the portfolio page, the
  lookups and the directory responses.
\<close>

definition ingest ::
  "string_methods \<Rightarrow> (string \<Rightarrow> js_error + (string \<Rightarrow> element list)) \<Rightarrow>
   (string \<Rightarrow> js_error + string) \<Rightarrow> (js_error + page_body) list \<Rightarrow> (nat \<Rightarrow> string) \<Rightarrow>
   row list \<Rightarrow> (http_response \<times> row list) option" where
  "ingest str fetch lookup responses now tbl =
     map_option (\<lambda>results. GET storage_upsert now (Inr results) tbl)
       (scrapeStartups str fetch lookup responses)"

subsection \<open>Properties of the endpoint\<close>

lemma length_startupsToInsert [simp]:
  "length (startupsToInsert now results) = length results"
  by (simp add: startupsToInsert_def)

lemma nth_startupsToInsert:
  "i < length results \<Longrightarrow>
   startupsToInsert now results ! i =
     \<lparr>row_name = or_else (name (results ! i)) ''Unknown'',
      row_website = or_else (website (results ! i)) ''not found'',
      row_linkedin_url = or_else (linkedin_url (results ! i)) ''not found'',
      created_at = now i\<rparr>"
  by (simp add: startupsToInsert_def nth_enumerate_eq)

lemma names_startupsToInsert:
  "map row_name (startupsToInsert now results) =
   map (\<lambda>startup. or_else (name startup) ''Unknown'') results"
  by (rule nth_equalityI) (simp_all add: nth_startupsToInsert)

lemma upsert_ignore_present:
  "row_name ` set rows \<subseteq> row_name ` set tbl \<Longrightarrow> upsert_ignore rows tbl = tbl"
  by (induction rows arbitrary: tbl) auto

lemma upsert_ignore_names:
  "row_name ` set (upsert_ignore rows tbl) = row_name ` set rows \<union> row_name ` set tbl"
  by (induction rows arbitrary: tbl) auto


lemma GET_idempotent:
  assumes "GET storage_upsert now1 (Inr results) tbl = (r1, tbl1)"
  shows "GET storage_upsert now2 (Inr results) tbl1 = (r1, tbl1)
     \<and> r1 = Json200 True (length results) (length tbl1)
          (if length results = 0 then ''No new startups found''
           else ''Scrape completed successfully'')"
proof (cases "results = []")
  case True
  with assms show ?thesis by (auto simp: GET_def)
next
  case False
  with assms have t1: "tbl1 = upsert_ignore (startupsToInsert now1 results) tbl"
    and r1: "r1 = Json200 True (length results) (length tbl1) ''Scrape completed successfully''"
    by (auto simp: GET_def storage_upsert_def)
  have "row_name ` set (startupsToInsert now2 results) =
      row_name ` set (startupsToInsert now1 results)"
    using names_startupsToInsert[of now1 results] names_startupsToInsert[of now2 results]
    by (metis set_map)
  then have "row_name ` set (startupsToInsert now2 results) \<subseteq> row_name ` set tbl1"
    unfolding t1 by (simp add: upsert_ignore_names)
  then have "upsert_ignore (startupsToInsert now2 results) tbl1 = tbl1"
    by (rule upsert_ignore_present)
  with False r1 show ?thesis
    by (simp add: GET_def storage_upsert_def)
qed

text \<open>
  C7. Over the storage of the specification, a second ingestion with the same external
  data answers with the same \<^verbatim>\<open>totalCount\<close> as the first and leaves the table as the
  first left it, whatever the time stamps of the two runs; and an upsert of records
  whose names are all present leaves the table, and so the record count, unchanged.
\<close>

theorem ingest_idempotent:
  "(ingest str fetch lookup responses now1 tbl = Some (r1, tbl1) \<longrightarrow>
      (\<exists>r2. ingest str fetch lookup responses now2 tbl1 = Some (r2, tbl1)
         \<and> totalCount r2 = totalCount r1 \<and> totalCount r1 = length tbl1))
   \<and> (row_name ` set rows \<subseteq> row_name ` set tbl0 \<longrightarrow>
      upsert_ignore rows tbl0 = tbl0 \<and> length (upsert_ignore rows tbl0) = length tbl0)"
proof -
  have "\<exists>r2. ingest str fetch lookup responses now2 tbl1 = Some (r2, tbl1)
         \<and> totalCount r2 = totalCount r1 \<and> totalCount r1 = length tbl1"
    if a: "ingest str fetch lookup responses now1 tbl = Some (r1, tbl1)"
  proof -
    from a obtain results where
      s: "scrapeStartups str fetch lookup responses = Some results"
      and g: "GET storage_upsert now1 (Inr results) tbl = (r1, tbl1)"
      by (auto simp: ingest_def)
    from GET_idempotent[OF g, of now2] s
    have "ingest str fetch lookup responses now2 tbl1 = Some (r1, tbl1)" "totalCount r1 = length tbl1"
      by (auto simp: ingest_def)
    then show ?thesis by blast
  qed
  then show ?thesis
    using upsert_ignore_present[of rows tbl0] by auto
qed

text \<open>
  C8. A record is built from each result, in order, with a missing or empty name,
  website or LinkedIn URL replaced by its sentinel and with the time stamp read for it.
  When the scrape succeeds and the upsert (made only for a non-empty batch) reports no
  error, the response is a 200 whose \<^verbatim>\<open>newCount\<close> is the number of results, whose
  \<^verbatim>\<open>totalCount\<close> is the number of rows of the table after the upsert, and whose
  message is the "no new" one exactly when there are no results.
\<close>

theorem GET_success:
  "length (startupsToInsert now results) = length results
   \<and> (\<forall>i<length results.
        startupsToInsert now results ! i =
          \<lparr>row_name = or_else (name (results ! i)) ''Unknown'',
           row_website = or_else (website (results ! i)) ''not found'',
           row_linkedin_url = or_else (linkedin_url (results ! i)) ''not found'',
           created_at = now i\<rparr>)
   \<and> or_else None d = d \<and> or_else (Some []) d = d \<and> (v \<noteq> [] \<longrightarrow> or_else (Some v) d = v)
   \<and> (results = [] \<longrightarrow>
        GET upsert now (Inr results) tbl =
          (Json200 True 0 (length tbl) ''No new startups found'', tbl))
   \<and> (results \<noteq> [] \<and> upsert (startupsToInsert now results) tbl = (None, tbl') \<longrightarrow>
        GET upsert now (Inr results) tbl =
          (Json200 True (length results) (length tbl') ''Scrape completed successfully'', tbl'))
   \<and> (GET upsert now (Inr results) tbl = (Json200 ok n cnt msg, tbl'') \<longrightarrow>
        ok \<and> n = length results \<and> cnt = length tbl''
        \<and> (msg = ''No new startups found'' \<longleftrightarrow> results = [])
        \<and> (msg = ''Scrape completed successfully'' \<longleftrightarrow> results \<noteq> []))"
  by (auto simp: nth_startupsToInsert GET_def or_else_def split: option.splits prod.splits)

subsection \<open>Concrete ingestions\<close>

text \<open>
  The table after one ingestion of the concrete inputs into an empty table, and a scraped
  result with no name, an empty website and a LinkedIn URL.
\<close>

definition demo_table :: "row list" where
  "demo_table =
     [\<lparr>row_name = ''Acme'', row_website = ''not found'', row_linkedin_url = ''not found'',
       created_at = ''2024-01-01''\<rparr>,
      \<lparr>row_name = ''acme'', row_website = ''not found'', row_linkedin_url = ''not found'',
       created_at = ''2024-01-01''\<rparr>]"

definition sparse_result :: startup where
  "sparse_result = \<lparr>name = None, website = Some [], linkedin_url = Some ''https://example.org/in'',
     source = None\<rparr>"

lemma demo_ingest:
  "ingest latin1 demo_fetch demo_lookup demo_responses (\<lambda>i. ''2024-01-01'') [] =
     Some (Json200 True 2 2 ''Scrape completed successfully'', demo_table)"
  by (simp add: ingest_def demo_scrape GET_def storage_upsert_def startupsToInsert_def
      or_else_def demo_table_def)

text \<open>
  Two ingestions of the same data, a month apart: both answer with a total of 2, and
  an upsert of a record named \<open>acme\<close> into the table leaves it at two rows.
\<close>

theorem ingest_idempotent_witness:
  "ingest latin1 demo_fetch demo_lookup demo_responses (\<lambda>i. ''2024-01-01'') [] =
     Some (Json200 True 2 2 ''Scrape completed successfully'', demo_table)
   \<and> (\<exists>r2. ingest latin1 demo_fetch demo_lookup demo_responses (\<lambda>i. ''2024-02-02'') demo_table =
          Some (r2, demo_table) \<and> totalCount r2 = 2)
   \<and> length (upsert_ignore
        [\<lparr>row_name = ''acme'', row_website = ''https://acme.example'',
          row_linkedin_url = ''not found'', created_at = ''2024-02-02''\<rparr>] demo_table) = 2"
proof -
  let ?rows = "[\<lparr>row_name = ''acme'', row_website = ''https://acme.example'',
          row_linkedin_url = ''not found'', created_at = ''2024-02-02''\<rparr>]"
  note t = ingest_idempotent [of latin1 demo_fetch demo_lookup demo_responses "\<lambda>i. ''2024-01-01''" "[]"
      "Json200 True 2 2 ''Scrape completed successfully''" demo_table "\<lambda>i. ''2024-02-02''"
      ?rows demo_table]
  from t[THEN conjunct1] demo_ingest obtain r2 where
    a: "ingest latin1 demo_fetch demo_lookup demo_responses (\<lambda>i. ''2024-02-02'') demo_table =
       Some (r2, demo_table)" "totalCount r2 = 2"
    by auto
  have "row_name ` set ?rows \<subseteq> row_name ` set demo_table"
    by (simp add: demo_table_def)
  with t[THEN conjunct2] have b: "length (upsert_ignore ?rows demo_table) = length demo_table"
    by blast
  have c: "length demo_table = 2" by (simp add: demo_table_def)
  show ?thesis using demo_ingest a b c by auto
qed

text \<open>
  The endpoint on no results and on the result without a name: the record written is
  \<open>Unknown\<close> with the sentinel website, and the total counts it.
\<close>

theorem GET_success_witness:
  "startupsToInsert (\<lambda>i. ''2024-03-03'') [sparse_result] ! 0 =
     \<lparr>row_name = ''Unknown'', row_website = ''not found'',
      row_linkedin_url = ''https://example.org/in'', created_at = ''2024-03-03''\<rparr>
   \<and> GET storage_upsert (\<lambda>i. ''2024-03-03'') (Inr []) demo_table =
       (Json200 True 0 2 ''No new startups found'', demo_table)
   \<and> GET storage_upsert (\<lambda>i. ''2024-03-03'') (Inr [sparse_result]) demo_table =
       (Json200 True 1 3 ''Scrape completed successfully'',
        demo_table @ [\<lparr>row_name = ''Unknown'', row_website = ''not found'',
          row_linkedin_url = ''https://example.org/in'', created_at = ''2024-03-03''\<rparr>])"
proof -
  let ?now = "\<lambda>i::nat. ''2024-03-03''"
  let ?row = "\<lparr>row_name = ''Unknown'', row_website = ''not found'',
      row_linkedin_url = ''https://example.org/in'', created_at = ''2024-03-03''\<rparr>"
  note t = GET_success [of ?now "[sparse_result]" "[]" "[]" storage_upsert demo_table
      "demo_table @ [?row]" True 0 0 "[]" "[]"]
  note t0 = GET_success [of ?now "[]" "[]" "[]" storage_upsert demo_table "[]" True 0 0 "[]" "[]",
      THEN conjunct2, THEN conjunct2, THEN conjunct2, THEN conjunct2, THEN conjunct2,
      THEN conjunct1]
  note t7 = t [THEN conjunct2, THEN conjunct2, THEN conjunct2, THEN conjunct2, THEN conjunct2,
      THEN conjunct2, THEN conjunct1]
  have a: "startupsToInsert ?now [sparse_result] ! 0 = ?row"
    using t[THEN conjunct2, THEN conjunct1] by (simp add: sparse_result_def or_else_def)
  have rows: "startupsToInsert ?now [sparse_result] = [?row]"
    by (simp add: startupsToInsert_def sparse_result_def or_else_def)
  have u: "storage_upsert (startupsToInsert ?now [sparse_result]) demo_table =
      (None, demo_table @ [?row])"
    by (simp add: rows storage_upsert_def demo_table_def)
  have b: "GET storage_upsert ?now (Inr []) demo_table =
       (Json200 True 0 2 ''No new startups found'', demo_table)"
    using t0 by (simp add: demo_table_def)
  have c: "GET storage_upsert ?now (Inr [sparse_result]) demo_table =
       (Json200 True 1 3 ''Scrape completed successfully'', demo_table @ [?row])"
    using t7 u by (simp add: demo_table_def)
  show ?thesis using a b c by simp
qed

end
